theory Spec2Isabelle
  imports Main
begin

section \<open>Outcomes of a call\<close>

text \<open>
  The pipe of \<^verbatim>\<open>furi/core/pipe.c\<close> lives on the heap: sides, chains and stream buffers are
  objects reached through pointers. The model keeps one map per kind of object and passes
  the heap through every call. A call either returns or ends in one of three ways:
  \<^item> \<open>Crash\<close>: a \<^verbatim>\<open>furi_check\<close>, \<^verbatim>\<open>furi_assert\<close> or \<^verbatim>\<open>furi_crash\<close> fired (fatal);
  \<^item> \<open>InvalidPointer\<close>: the C code would read or write through a null or dangling pointer
    that no check guards (undefined behaviour in C);
  \<^item> \<open>Blocked\<close>: the call waits forever (an infinite-wait acquire or transfer that nothing
    in a single thread of control can ever satisfy), so it never returns.
\<close>

type_synonym addr = nat
type_synonym byte = char

datatype error = Crash | InvalidPointer | Blocked

definition bindE :: "error + 'a \<Rightarrow> ('a \<Rightarrow> error + 'b) \<Rightarrow> error + 'b" where
  "bindE m f = (case m of Inl e \<Rightarrow> Inl e | Inr x \<Rightarrow> f x)"

type_synonym FuriWait = nat

text \<open>\<^verbatim>\<open>FuriWaitForever\<close> is declared in \<^verbatim>\<open>base.h\<close> as \<^verbatim>\<open>0xFFFFFFFFU\<close>.\<close>

definition FuriWaitForever :: FuriWait where
  "FuriWaitForever = 4294967295"

section \<open>The stream buffer collaborator\<close>

text \<open>
  Modelled from the spec: \<^verbatim>\<open>stream_buffer.c\<close> is not among the sources. The spec gives the
  contract: a bounded byte queue with a capacity and a trigger level; \<open>send\<close> appends as
  many bytes as fit and blocks until at least one byte fits or the timeout elapses;
  \<open>receive\<close> takes up to \<open>length\<close> bytes from the head and blocks until at least
  \<open>trigger_level\<close> bytes are present or the timeout elapses. In one thread of control
  nobody else fills or drains the buffer while a call waits, so a finite timeout ends with
  what is there and an infinite one never ends.
\<close>

record FuriStreamBuffer =
  sb_bytes :: "byte list"
  sb_capacity :: nat
  sb_trigger_level :: nat

definition furi_stream_buffer_alloc :: "nat \<Rightarrow> nat \<Rightarrow> FuriStreamBuffer" where
  "furi_stream_buffer_alloc cap trigger =
     \<lparr>sb_bytes = [], sb_capacity = cap, sb_trigger_level = trigger\<rparr>"

definition furi_stream_buffer_bytes_available :: "FuriStreamBuffer \<Rightarrow> nat" where
  "furi_stream_buffer_bytes_available b = length (sb_bytes b)"

definition furi_stream_buffer_spaces_available :: "FuriStreamBuffer \<Rightarrow> nat" where
  "furi_stream_buffer_spaces_available b = sb_capacity b - length (sb_bytes b)"

definition furi_stream_get_trigger_level :: "FuriStreamBuffer \<Rightarrow> nat" where
  "furi_stream_get_trigger_level b = sb_trigger_level b"

definition furi_stream_buffer_send ::
  "FuriStreamBuffer \<Rightarrow> byte list \<Rightarrow> FuriWait \<Rightarrow> error + (nat \<times> FuriStreamBuffer)" where
  "furi_stream_buffer_send b data timeout =
     (let space = furi_stream_buffer_spaces_available b in
      if data \<noteq> [] \<and> space = 0 \<and> timeout = FuriWaitForever then Inl Blocked
      else Inr (min (length data) space, b\<lparr>sb_bytes := sb_bytes b @ take space data\<rparr>))"

definition furi_stream_buffer_receive ::
  "FuriStreamBuffer \<Rightarrow> nat \<Rightarrow> FuriWait \<Rightarrow> error + (byte list \<times> FuriStreamBuffer)" where
  "furi_stream_buffer_receive b len timeout =
     (if furi_stream_buffer_bytes_available b < sb_trigger_level b \<and> timeout = FuriWaitForever
      then Inl Blocked
      else Inr (take len (sb_bytes b), b\<lparr>sb_bytes := drop len (sb_bytes b)\<rparr>))"

section \<open>The weldable pipe: data\<close>

datatype FuriPipeRole = FuriPipeRoleAlice | FuriPipeRoleBob | FuriPipeRoleJoint

datatype FuriPipeState = FuriPipeStateOpen | FuriPipeStateBroken | FuriPipeStateWelded

datatype FuriPipeWeldingCap = FuriPipeWeldingCapEnabled | FuriPipeWeldingCapDisabled

datatype FuriMutexType = FuriMutexTypeNormal | FuriMutexTypeRecursive

record FuriPipeDirectionSettings =
  capacity :: nat
  trigger_level :: nat

record FuriPipe =
  alices_side :: addr
  bobs_side :: addr

text \<open>A chain of pipes that have been welded together; \<open>pipe_sides\<close> is in order of travel
  from Alice to Bob.\<close>

record FuriPipeChain =
  alice_to_bob :: addr
  bob_to_alice :: addr
  pipe_sides :: "addr list"

text \<open>The \<open>mutex\<close> pointer is null (\<open>None\<close>) when welding is disabled; otherwise the field
  holds the type the mutex was allocated with.\<close>

record FuriPipeSide =
  mutex :: "FuriMutexType option"
  role :: FuriPipeRole
  chain :: addr
  sending :: "addr option"
  receiving :: "addr option"
  send_settings :: FuriPipeDirectionSettings

text \<open>
  The heap. Stream buffers and the allocator's next fresh address are common to both
  variants of the pipe. For the weldable pipe, \<open>held p\<close> counts how often the running
  thread holds the mutex of side \<open>p\<close>; \<open>thread_stdout\<close> and \<open>thread_stdin\<close> are the
  contexts registered with the thread's stdio callbacks (\<open>None\<close>: the pipe's callbacks are
  not installed).
\<close>

record stream_heap =
  buffers :: "addr \<rightharpoonup> FuriStreamBuffer"
  next_addr :: addr

record pipe_heap = stream_heap +
  sides :: "addr \<rightharpoonup> FuriPipeSide"
  chains :: "addr \<rightharpoonup> FuriPipeChain"
  held :: "addr \<Rightarrow> nat"
  thread_stdout :: "addr option"
  thread_stdin :: "addr option"

definition heap_init :: pipe_heap where
  "heap_init = \<lparr>buffers = Map.empty, next_addr = 0, sides = Map.empty, chains = Map.empty,
                 held = (\<lambda>_. 0), thread_stdout = None, thread_stdin = None\<rparr>"

subsection \<open>Reading through pointers\<close>

definition get_side :: "pipe_heap \<Rightarrow> addr \<Rightarrow> error + FuriPipeSide" where
  "get_side s p = (case sides s p of None \<Rightarrow> Inl InvalidPointer | Some r \<Rightarrow> Inr r)"

definition get_chain :: "pipe_heap \<Rightarrow> addr \<Rightarrow> error + FuriPipeChain" where
  "get_chain s c = (case chains s c of None \<Rightarrow> Inl InvalidPointer | Some ch \<Rightarrow> Inr ch)"

definition get_buffer :: "'a stream_heap_scheme \<Rightarrow> addr \<Rightarrow> error + FuriStreamBuffer" where
  "get_buffer s b = (case buffers s b of None \<Rightarrow> Inl InvalidPointer | Some v \<Rightarrow> Inr v)"

text \<open>The stream buffer calls on a buffer of the heap.\<close>

definition stream_send ::
  "'a stream_heap_scheme \<Rightarrow> addr \<Rightarrow> byte list \<Rightarrow> FuriWait \<Rightarrow> error + (nat \<times> 'a stream_heap_scheme)" where
  "stream_send s b data timeout =
     bindE (get_buffer s b) (\<lambda>v.
     bindE (furi_stream_buffer_send v data timeout) (\<lambda>(n, v').
     Inr (n, s\<lparr>buffers := (buffers s)(b \<mapsto> v')\<rparr>)))"

definition stream_receive ::
  "'a stream_heap_scheme \<Rightarrow> addr \<Rightarrow> nat \<Rightarrow> FuriWait \<Rightarrow> error + (byte list \<times> 'a stream_heap_scheme)" where
  "stream_receive s b len timeout =
     bindE (get_buffer s b) (\<lambda>v.
     bindE (furi_stream_buffer_receive v len timeout) (\<lambda>(out, v').
     Inr (out, s\<lparr>buffers := (buffers s)(b \<mapsto> v')\<rparr>)))"

definition stream_bytes_available :: "'a stream_heap_scheme \<Rightarrow> addr \<Rightarrow> error + nat" where
  "stream_bytes_available s b =
     bindE (get_buffer s b) (\<lambda>v. Inr (furi_stream_buffer_bytes_available v))"

definition stream_spaces_available :: "'a stream_heap_scheme \<Rightarrow> addr \<Rightarrow> error + nat" where
  "stream_spaces_available s b =
     bindE (get_buffer s b) (\<lambda>v. Inr (furi_stream_buffer_spaces_available v))"

text \<open>\<^verbatim>\<open>furi_stream_buffer_free\<close>: the buffer is gone; freeing a buffer that is not there is
  a use of a dangling pointer.\<close>

definition stream_free :: "'a stream_heap_scheme \<Rightarrow> addr \<Rightarrow> error + 'a stream_heap_scheme" where
  "stream_free s b =
     bindE (get_buffer s b) (\<lambda>_. Inr (s\<lparr>buffers := (buffers s)(b := None)\<rparr>))"

section \<open>The mutex collaborator\<close>

text \<open>
  Modelled from the spec: \<^verbatim>\<open>mutex.c\<close> is not among the sources. The spec names normal and
  recursive modes, an infinite-wait acquire, and re-entrancy as what lets a thread acquire
  a mutex it already holds. So acquiring a normal mutex that the running thread holds
  waits forever; a recursive one counts the acquisitions. Releasing gives one acquisition
  back (and does nothing to a mutex that is not held).
\<close>

definition furi_mutex_acquire :: "pipe_heap \<Rightarrow> addr \<Rightarrow> FuriMutexType \<Rightarrow> error + pipe_heap" where
  "furi_mutex_acquire s p t =
     (if t = FuriMutexTypeNormal \<and> 0 < held s p then Inl Blocked
      else Inr (s\<lparr>held := (held s)(p := held s p + 1)\<rparr>))"

definition furi_mutex_release :: "pipe_heap \<Rightarrow> addr \<Rightarrow> pipe_heap" where
  "furi_mutex_release s p = s\<lparr>held := (held s)(p := held s p - 1)\<rparr>"

definition furi_pipe_side_lock :: "pipe_heap \<Rightarrow> addr \<Rightarrow> error + pipe_heap" where
  "furi_pipe_side_lock s p =
     bindE (get_side s p) (\<lambda>r.
       case mutex r of None \<Rightarrow> Inr s | Some t \<Rightarrow> furi_mutex_acquire s p t)"

definition furi_pipe_side_unlock :: "pipe_heap \<Rightarrow> addr \<Rightarrow> error + pipe_heap" where
  "furi_pipe_side_unlock s p =
     bindE (get_side s p) (\<lambda>r.
       case mutex r of None \<Rightarrow> Inr s | Some t \<Rightarrow> Inr (furi_mutex_release s p))"

definition furi_mutex_free :: "pipe_heap \<Rightarrow> addr \<Rightarrow> pipe_heap" where
  "furi_mutex_free s p = s\<lparr>held := (held s)(p := 0)\<rparr>"

section \<open>The weldable pipe: operations\<close>

text \<open>
  \<^verbatim>\<open>malloc\<close> hands out fresh addresses (the firmware's allocator crashes when memory runs
  out, which the model leaves aside). Sizes are \<^verbatim>\<open>size_t\<close> in C and \<open>nat\<close> here: every size
  below is the length of data that fits in memory, so none wraps around.
\<close>

definition furi_pipe_alloc_ex ::
  "pipe_heap \<Rightarrow> FuriPipeWeldingCap \<Rightarrow> FuriPipeDirectionSettings \<Rightarrow> FuriPipeDirectionSettings
     \<Rightarrow> FuriPipe \<times> pipe_heap" where
  "furi_pipe_alloc_ex s welding_cap to_alice to_bob =
     (let a2b = next_addr s;
          b2a = next_addr s + 1;
          ch = next_addr s + 2;
          alices = next_addr s + 3;
          bobs = next_addr s + 4
      in (\<lparr>alices_side = alices, bobs_side = bobs\<rparr>,
          s\<lparr>buffers := (buffers s)
                 (a2b \<mapsto> furi_stream_buffer_alloc (capacity to_bob) (trigger_level to_bob),
                  b2a \<mapsto> furi_stream_buffer_alloc (capacity to_alice) (trigger_level to_alice)),
            chains := (chains s)
                 (ch \<mapsto> \<lparr>alice_to_bob = a2b, bob_to_alice = b2a, pipe_sides = [alices, bobs]\<rparr>),
            sides := (sides s)
                 (alices \<mapsto>
                    \<lparr>mutex = (if welding_cap = FuriPipeWeldingCapEnabled
                               then Some FuriMutexTypeRecursive else None),
                     role = FuriPipeRoleAlice, chain = ch,
                     sending = Some a2b, receiving = Some b2a, send_settings = to_bob\<rparr>,
                  bobs \<mapsto>
                    \<lparr>mutex = (if welding_cap = FuriPipeWeldingCapEnabled
                               then Some FuriMutexTypeNormal else None),
                     role = FuriPipeRoleBob, chain = ch,
                     sending = Some b2a, receiving = Some a2b, send_settings = to_alice\<rparr>),
            held := (held s)(alices := 0, bobs := 0),
            next_addr := next_addr s + 5\<rparr>))"

definition furi_pipe_alloc :: "pipe_heap \<Rightarrow> nat \<Rightarrow> nat \<Rightarrow> FuriPipe \<times> pipe_heap" where
  "furi_pipe_alloc s cap trig =
     (let settings = \<lparr>capacity = cap, trigger_level = trig\<rparr>
      in furi_pipe_alloc_ex s FuriPipeWeldingCapEnabled settings settings)"

definition furi_pipe_role :: "pipe_heap \<Rightarrow> addr option \<Rightarrow> error + FuriPipeRole" where
  "furi_pipe_role s pipe =
     (case pipe of None \<Rightarrow> Inl Crash | Some p \<Rightarrow>
        bindE (furi_pipe_side_lock s p) (\<lambda>s1.
        bindE (get_side s1 p) (\<lambda>r.
        bindE (furi_pipe_side_unlock s1 p) (\<lambda>_. Inr (role r)))))"

definition furi_pipe_state :: "pipe_heap \<Rightarrow> addr option \<Rightarrow> error + FuriPipeState" where
  "furi_pipe_state s pipe =
     (case pipe of None \<Rightarrow> Inl Crash | Some p \<Rightarrow>
        bindE (furi_pipe_side_lock s p) (\<lambda>s1.
        bindE (get_side s1 p) (\<lambda>r.
        bindE (get_chain s1 (chain r)) (\<lambda>c.
        let n = length (pipe_sides c) in
        bindE (furi_pipe_side_unlock s1 p) (\<lambda>_.
        Inr (if n mod 2 \<noteq> 0 then FuriPipeStateBroken else FuriPipeStateOpen))))))"

text \<open>A buffer pointer of a side; the stream buffer calls are handed a null pointer when it
  is \<open>None\<close>.\<close>

definition buffer_ptr :: "addr option \<Rightarrow> error + addr" where
  "buffer_ptr b = (case b of None \<Rightarrow> Inl InvalidPointer | Some a \<Rightarrow> Inr a)"

definition furi_pipe_free :: "pipe_heap \<Rightarrow> addr option \<Rightarrow> error + pipe_heap" where
  "furi_pipe_free s pipe =
     (case pipe of None \<Rightarrow> Inl Crash | Some p \<Rightarrow>
        bindE (furi_pipe_side_lock s p) (\<lambda>s1.
        bindE (get_side s1 p) (\<lambda>r.
        if role r = FuriPipeRoleJoint then Inl Crash
        else
        bindE (get_chain s1 (chain r)) (\<lambda>c.
        let n = length (pipe_sides c) in
        if \<not> n \<le> 2 then Inl Crash
        else if n = 1 then
          bindE (buffer_ptr (sending r)) (\<lambda>bs.
          bindE (stream_free s1 bs) (\<lambda>s2.
          bindE (buffer_ptr (receiving r)) (\<lambda>br.
          bindE (stream_free s2 br) (\<lambda>s3.
          let s4 = s3\<lparr>chains := (chains s3)(chain r := None)\<rparr>;
              s5 = (if mutex r \<noteq> None then furi_mutex_free s4 p else s4)
          in Inr (s5\<lparr>sides := (sides s5)(p := None)\<rparr>)))))
        else
          if p \<notin> set (pipe_sides c) then Inl Crash
          else
            let s2 = s1\<lparr>chains := (chains s1)
                         (chain r \<mapsto> c\<lparr>pipe_sides := remove1 p (pipe_sides c)\<rparr>)\<rparr>;
                s3 = (if mutex r \<noteq> None then furi_mutex_free s2 p else s2)
            in Inr (s3\<lparr>sides := (sides s3)(p := None)\<rparr>)))))"

definition furi_pipe_receive ::
  "pipe_heap \<Rightarrow> addr option \<Rightarrow> nat \<Rightarrow> FuriWait \<Rightarrow> error + (byte list \<times> pipe_heap)" where
  "furi_pipe_receive s pipe len timeout =
     (case pipe of None \<Rightarrow> Inl Crash | Some p \<Rightarrow>
        bindE (furi_pipe_side_lock s p) (\<lambda>s1.
        bindE (get_side s1 p) (\<lambda>r.
        bindE (case receiving r of None \<Rightarrow> Inr ([], s1)
               | Some buffer \<Rightarrow> stream_receive s1 buffer len timeout) (\<lambda>(received, s2).
        bindE (furi_pipe_side_unlock s2 p) (\<lambda>s3. Inr (received, s3))))))"

definition furi_pipe_send ::
  "pipe_heap \<Rightarrow> addr option \<Rightarrow> byte list \<Rightarrow> FuriWait \<Rightarrow> error + (nat \<times> pipe_heap)" where
  "furi_pipe_send s pipe data timeout =
     (case pipe of None \<Rightarrow> Inl Crash | Some p \<Rightarrow>
        bindE (furi_pipe_side_lock s p) (\<lambda>s1.
        bindE (get_side s1 p) (\<lambda>r.
        bindE (case sending r of None \<Rightarrow> Inr (0, s1)
               | Some buffer \<Rightarrow> stream_send s1 buffer data timeout) (\<lambda>(sent, s2).
        bindE (furi_pipe_side_unlock s2 p) (\<lambda>s3. Inr (sent, s3))))))"

definition furi_pipe_bytes_available :: "pipe_heap \<Rightarrow> addr option \<Rightarrow> error + nat" where
  "furi_pipe_bytes_available s pipe =
     (case pipe of None \<Rightarrow> Inl Crash | Some p \<Rightarrow>
        bindE (furi_pipe_side_lock s p) (\<lambda>s1.
        bindE (get_side s1 p) (\<lambda>r.
        bindE (case receiving r of None \<Rightarrow> Inr 0
               | Some buffer \<Rightarrow> stream_bytes_available s1 buffer) (\<lambda>available.
        bindE (furi_pipe_side_unlock s1 p) (\<lambda>_. Inr available)))))"

definition furi_pipe_spaces_available :: "pipe_heap \<Rightarrow> addr option \<Rightarrow> error + nat" where
  "furi_pipe_spaces_available s pipe =
     (case pipe of None \<Rightarrow> Inl Crash | Some p \<Rightarrow>
        bindE (furi_pipe_side_lock s p) (\<lambda>s1.
        bindE (get_side s1 p) (\<lambda>r.
        bindE (case sending r of None \<Rightarrow> Inr 0
               | Some buffer \<Rightarrow> stream_spaces_available s1 buffer) (\<lambda>available.
        bindE (furi_pipe_side_unlock s1 p) (\<lambda>_. Inr available)))))"

subsection \<open>The stdio callbacks\<close>

text \<open>
  \<^verbatim>\<open>_furi_pipe_stdout_cb\<close> and \<^verbatim>\<open>_furi_pipe_stdin_cb\<close> (the names lose their leading
  underscore here). They call the stream buffer directly, with no lock and no test of
  \<open>sending\<close> or \<open>receiving\<close>.
\<close>

definition furi_pipe_stdout_cb :: "pipe_heap \<Rightarrow> byte list \<Rightarrow> addr option \<Rightarrow> error + pipe_heap" where
  "furi_pipe_stdout_cb s data context =
     (case context of None \<Rightarrow> Inl Crash | Some p \<Rightarrow>
        bindE (get_side s p) (\<lambda>r.
        bindE (buffer_ptr (sending r)) (\<lambda>b.
        bindE (stream_send s b data FuriWaitForever) (\<lambda>(sent, s1).
        if sent = length data then Inr s1 else Inl Crash))))"

definition furi_pipe_stdin_cb ::
  "pipe_heap \<Rightarrow> nat \<Rightarrow> FuriWait \<Rightarrow> addr option \<Rightarrow> error + (byte list \<times> pipe_heap)" where
  "furi_pipe_stdin_cb s len timeout context =
     (case context of None \<Rightarrow> Inl Crash | Some p \<Rightarrow>
        bindE (get_side s p) (\<lambda>r.
        bindE (buffer_ptr (receiving r)) (\<lambda>b.
        stream_receive s b len timeout)))"

definition furi_pipe_install_as_stdio :: "pipe_heap \<Rightarrow> addr option \<Rightarrow> error + pipe_heap" where
  "furi_pipe_install_as_stdio s pipe =
     (case pipe of None \<Rightarrow> Inl Crash
      | Some p \<Rightarrow> Inr (s\<lparr>thread_stdout := Some p, thread_stdin := Some p\<rparr>))"

text \<open>
  Modelled from the spec: the thread's stdio hook (\<^verbatim>\<open>thread.c\<close>) is not among the sources.
  The spec says the registered write callback receives the thread's stdout bytes; a thread
  with no pipe installed writes elsewhere and the heap stays as it is.
\<close>

definition furi_thread_stdout_write :: "pipe_heap \<Rightarrow> byte list \<Rightarrow> error + pipe_heap" where
  "furi_thread_stdout_write s data =
     (case thread_stdout s of None \<Rightarrow> Inr s
      | Some p \<Rightarrow> furi_pipe_stdout_cb s data (Some p))"

subsection \<open>Welding\<close>

text \<open>The two loops that lock all sides of a chain but the one locked at the beginning,
  and the loop that unlocks all sides.\<close>

fun lock_sides_except :: "addr \<Rightarrow> addr list \<Rightarrow> pipe_heap \<Rightarrow> error + pipe_heap" where
  "lock_sides_except skip [] s = Inr s"
| "lock_sides_except skip (p # ps) s =
     (if p \<noteq> skip
      then bindE (furi_pipe_side_lock s p) (lock_sides_except skip ps)
      else lock_sides_except skip ps s)"

fun unlock_sides :: "addr list \<Rightarrow> pipe_heap \<Rightarrow> error + pipe_heap" where
  "unlock_sides [] s = Inr s"
| "unlock_sides (p # ps) s = bindE (furi_pipe_side_unlock s p) (unlock_sides ps)"

text \<open>``copy residual data'': the buffer on the stack is as long as the fuller of the two
  buffers that are given up; both transfers use timeout 0 and the count that the send
  returns is dropped.\<close>

definition weld_copy_residual_data :: "pipe_heap \<Rightarrow> addr \<Rightarrow> addr \<Rightarrow> error + pipe_heap" where
  "weld_copy_residual_data s left_chain right_chain =
     bindE (get_chain s left_chain) (\<lambda>L.
     bindE (get_chain s right_chain) (\<lambda>R.
     bindE (stream_bytes_available s (alice_to_bob L)) (\<lambda>n1.
     bindE (stream_bytes_available s (bob_to_alice R)) (\<lambda>n2.
     let buf_size = max n1 n2 in
     bindE (stream_receive s (alice_to_bob L) buf_size 0) (\<lambda>(buf, s1).
     bindE (stream_send s1 (alice_to_bob R) buf 0) (\<lambda>(_, s2).
     bindE (stream_bytes_available s2 (alice_to_bob L)) (\<lambda>rest.
     if rest \<noteq> 0 then Inl Crash
     else
     bindE (stream_receive s2 (bob_to_alice R) buf_size 0) (\<lambda>(buf', s3).
     bindE (stream_send s3 (bob_to_alice L) buf' 0) (\<lambda>(_, s4).
     bindE (stream_bytes_available s4 (bob_to_alice R)) (\<lambda>rest'.
     if rest' \<noteq> 0 then Inl Crash else Inr s4))))))))))"

text \<open>``concat right chain to left chain''.\<close>

fun concat_sides :: "addr \<Rightarrow> addr list \<Rightarrow> pipe_heap \<Rightarrow> error + pipe_heap" where
  "concat_sides left_chain [] s = Inr s"
| "concat_sides left_chain (p # ps) s =
     bindE (get_side s p) (\<lambda>r.
     bindE (get_chain s left_chain) (\<lambda>L.
     concat_sides left_chain ps
       (s\<lparr>sides := (sides s)(p \<mapsto> r\<lparr>chain := left_chain\<rparr>),
          chains := (chains s)(left_chain \<mapsto> L\<lparr>pipe_sides := pipe_sides L @ [p]\<rparr>)\<rparr>)))"

definition weld_concat_chains :: "pipe_heap \<Rightarrow> addr \<Rightarrow> addr \<Rightarrow> error + pipe_heap" where
  "weld_concat_chains s left_chain right_chain =
     bindE (get_chain s right_chain) (\<lambda>R. concat_sides left_chain (pipe_sides R) s)"

text \<open>``free unneeded things''.\<close>

definition weld_free_unneeded :: "pipe_heap \<Rightarrow> addr \<Rightarrow> addr \<Rightarrow> error + pipe_heap" where
  "weld_free_unneeded s left_chain right_chain =
     bindE (get_chain s left_chain) (\<lambda>L.
     bindE (get_chain s right_chain) (\<lambda>R.
     bindE (stream_free s (alice_to_bob L)) (\<lambda>s1.
     bindE (stream_free s1 (bob_to_alice R)) (\<lambda>s2.
     Inr (s2\<lparr>chains := (chains s2)
               (left_chain \<mapsto> L\<lparr>alice_to_bob := alice_to_bob R\<rparr>, right_chain := None)\<rparr>)))))"

text \<open>``update intermediate sides''.\<close>

definition weld_update_intermediate_sides ::
  "pipe_heap \<Rightarrow> addr \<Rightarrow> addr \<Rightarrow> error + pipe_heap" where
  "weld_update_intermediate_sides s intermediate_bob intermediate_alice =
     bindE (get_side s intermediate_bob) (\<lambda>rb.
     let s1 = s\<lparr>sides := (sides s)(intermediate_bob \<mapsto>
                 rb\<lparr>role := FuriPipeRoleJoint, sending := None, receiving := None\<rparr>)\<rparr> in
     bindE (get_side s1 intermediate_alice) (\<lambda>ra.
     Inr (s1\<lparr>sides := (sides s1)(intermediate_alice \<mapsto>
                 ra\<lparr>role := FuriPipeRoleJoint, sending := None, receiving := None\<rparr>)\<rparr>)))"

text \<open>``update endpoint (chain) sides'': the front and the back of the merged array get the
  chain's buffers as their sending buffers. \<^verbatim>\<open>PipeSideArray_front\<close> of an empty array reads
  out of range.\<close>

definition weld_update_endpoint_sides :: "pipe_heap \<Rightarrow> addr \<Rightarrow> error + pipe_heap" where
  "weld_update_endpoint_sides s left_chain =
     bindE (get_chain s left_chain) (\<lambda>L.
     case pipe_sides L of [] \<Rightarrow> Inl InvalidPointer
     | front # rest \<Rightarrow>
       let chain_alice = front;
           chain_bob = last (front # rest) in
       bindE (get_side s chain_alice) (\<lambda>ra.
       let s1 = s\<lparr>sides := (sides s)(chain_alice \<mapsto> ra\<lparr>sending := Some (alice_to_bob L)\<rparr>)\<rparr> in
       bindE (get_side s1 chain_bob) (\<lambda>rb.
       Inr (s1\<lparr>sides := (sides s1)(chain_bob \<mapsto> rb\<lparr>sending := Some (bob_to_alice L)\<rparr>)\<rparr>))))"

text \<open>``unlock all sides''.\<close>

definition weld_unlock_all_sides :: "pipe_heap \<Rightarrow> addr \<Rightarrow> error + pipe_heap" where
  "weld_unlock_all_sides s left_chain =
     bindE (get_chain s left_chain) (\<lambda>L. unlock_sides (pipe_sides L) s)"

text \<open>Everything of \<^verbatim>\<open>furi_pipe_weld\<close> after the two chains are known.\<close>

definition weld_chains :: "pipe_heap \<Rightarrow> addr \<Rightarrow> addr \<Rightarrow> addr \<Rightarrow> addr \<Rightarrow> error + pipe_heap" where
  "weld_chains s intermediate_bob intermediate_alice left_chain right_chain =
     bindE (get_chain s left_chain) (\<lambda>L.
     bindE (lock_sides_except intermediate_bob (pipe_sides L) s) (\<lambda>s1.
     bindE (get_chain s1 right_chain) (\<lambda>R.
     bindE (lock_sides_except intermediate_alice (pipe_sides R) s1) (\<lambda>s2.
     bindE (weld_copy_residual_data s2 left_chain right_chain) (\<lambda>s3.
     bindE (weld_concat_chains s3 left_chain right_chain) (\<lambda>s4.
     bindE (weld_free_unneeded s4 left_chain right_chain) (\<lambda>s5.
     bindE (weld_update_intermediate_sides s5 intermediate_bob intermediate_alice) (\<lambda>s6.
     bindE (weld_update_endpoint_sides s6 left_chain) (\<lambda>s7.
     weld_unlock_all_sides s7 left_chain)))))))))"

definition furi_pipe_weld :: "pipe_heap \<Rightarrow> addr option \<Rightarrow> addr option \<Rightarrow> error + pipe_heap" where
  "furi_pipe_weld s side_1 side_2 =
     (case side_1 of None \<Rightarrow> Inl Crash | Some p1 \<Rightarrow>
      case side_2 of None \<Rightarrow> Inl Crash | Some p2 \<Rightarrow>
        bindE (get_side s p1) (\<lambda>r1.
        if mutex r1 = None then Inl Crash
        else
        bindE (get_side s p2) (\<lambda>r2.
        if mutex r2 = None then Inl Crash
        else
        bindE (furi_pipe_side_lock s p1) (\<lambda>s1.
        bindE (furi_pipe_side_lock s1 p2) (\<lambda>s2.
        if role r1 = FuriPipeRoleJoint then Inl Crash
        else if role r2 = FuriPipeRoleJoint then Inl Crash
        else if role r1 = role r2 then Inl Crash
        else
          let intermediate_alice = (if role r1 = FuriPipeRoleAlice then p1 else p2);
              intermediate_bob = (if role r2 = FuriPipeRoleBob then p2 else p1);
              right_chain = (if role r1 = FuriPipeRoleAlice then chain r1 else chain r2);
              left_chain = (if role r2 = FuriPipeRoleBob then chain r2 else chain r1)
          in if right_chain = left_chain then Inl Crash
             else weld_chains s2 intermediate_bob intermediate_alice left_chain right_chain)))))"

definition furi_pipe_unweld :: "pipe_heap \<Rightarrow> addr option \<Rightarrow> error + pipe_heap" where
  "furi_pipe_unweld s side = Inl Crash"

subsection \<open>The weld with the order of its locks\<close>

text \<open>
  \<^verbatim>\<open>furi_pipe_weld\<close> once more, now returning the order in which it acquires the mutexes as
  well: \<open>furi_pipe_side_lock_logged\<close> appends the side to the log when the side has a mutex
  and \<^verbatim>\<open>furi_mutex_acquire\<close> returns. Nothing else differs from \<open>furi_pipe_weld\<close>,
  \<open>weld_chains\<close> and \<open>lock_sides_except\<close> above; dropping the log gives them back
  (\<open>furi_pipe_weld_logged_erase\<close>).
\<close>

definition furi_pipe_side_lock_logged ::
  "addr list \<Rightarrow> pipe_heap \<Rightarrow> addr \<Rightarrow> error + (addr list \<times> pipe_heap)" where
  "furi_pipe_side_lock_logged log s p =
     bindE (get_side s p) (\<lambda>r.
       case mutex r of None \<Rightarrow> Inr (log, s)
       | Some t \<Rightarrow> bindE (furi_mutex_acquire s p t) (\<lambda>s'. Inr (log @ [p], s')))"

fun lock_sides_except_logged ::
  "addr \<Rightarrow> addr list \<Rightarrow> addr list \<Rightarrow> pipe_heap \<Rightarrow> error + (addr list \<times> pipe_heap)" where
  "lock_sides_except_logged skip [] log s = Inr (log, s)"
| "lock_sides_except_logged skip (p # ps) log s =
     (if p \<noteq> skip
      then bindE (furi_pipe_side_lock_logged log s p)
             (\<lambda>(log', s'). lock_sides_except_logged skip ps log' s')
      else lock_sides_except_logged skip ps log s)"

definition weld_chains_logged ::
  "addr list \<Rightarrow> pipe_heap \<Rightarrow> addr \<Rightarrow> addr \<Rightarrow> addr \<Rightarrow> addr \<Rightarrow> error + (addr list \<times> pipe_heap)" where
  "weld_chains_logged log s intermediate_bob intermediate_alice left_chain right_chain =
     bindE (get_chain s left_chain) (\<lambda>L.
     bindE (lock_sides_except_logged intermediate_bob (pipe_sides L) log s) (\<lambda>(log1, s1).
     bindE (get_chain s1 right_chain) (\<lambda>R.
     bindE (lock_sides_except_logged intermediate_alice (pipe_sides R) log1 s1) (\<lambda>(log2, s2).
     bindE (weld_copy_residual_data s2 left_chain right_chain) (\<lambda>s3.
     bindE (weld_concat_chains s3 left_chain right_chain) (\<lambda>s4.
     bindE (weld_free_unneeded s4 left_chain right_chain) (\<lambda>s5.
     bindE (weld_update_intermediate_sides s5 intermediate_bob intermediate_alice) (\<lambda>s6.
     bindE (weld_update_endpoint_sides s6 left_chain) (\<lambda>s7.
     bindE (weld_unlock_all_sides s7 left_chain) (\<lambda>s8.
     Inr (log2, s8)))))))))))"

definition furi_pipe_weld_logged ::
  "pipe_heap \<Rightarrow> addr option \<Rightarrow> addr option \<Rightarrow> error + (addr list \<times> pipe_heap)" where
  "furi_pipe_weld_logged s side_1 side_2 =
     (case side_1 of None \<Rightarrow> Inl Crash | Some p1 \<Rightarrow>
      case side_2 of None \<Rightarrow> Inl Crash | Some p2 \<Rightarrow>
        bindE (get_side s p1) (\<lambda>r1.
        if mutex r1 = None then Inl Crash
        else
        bindE (get_side s p2) (\<lambda>r2.
        if mutex r2 = None then Inl Crash
        else
        bindE (furi_pipe_side_lock_logged [] s p1) (\<lambda>(log1, s1).
        bindE (furi_pipe_side_lock_logged log1 s1 p2) (\<lambda>(log2, s2).
        if role r1 = FuriPipeRoleJoint then Inl Crash
        else if role r2 = FuriPipeRoleJoint then Inl Crash
        else if role r1 = role r2 then Inl Crash
        else
          let intermediate_alice = (if role r1 = FuriPipeRoleAlice then p1 else p2);
              intermediate_bob = (if role r2 = FuriPipeRoleBob then p2 else p1);
              right_chain = (if role r1 = FuriPipeRoleAlice then chain r1 else chain r2);
              left_chain = (if role r2 = FuriPipeRoleBob then chain r2 else chain r1)
          in if right_chain = left_chain then Inl Crash
             else weld_chains_logged log2 s2 intermediate_bob intermediate_alice
                    left_chain right_chain)))))"

section \<open>Sequences of operations\<close>

text \<open>A reachable heap is what a sequence of calls builds from the empty heap, every call
  returning. The caller learns the addresses of the sides from \<open>furi_pipe_alloc\<close>.\<close>

datatype pipe_op =
    OpAlloc nat nat
  | OpAllocEx FuriPipeWeldingCap FuriPipeDirectionSettings FuriPipeDirectionSettings
  | OpSend "addr option" "byte list" FuriWait
  | OpReceive "addr option" nat FuriWait
  | OpFree "addr option"
  | OpWeld "addr option" "addr option"

fun exec_op :: "pipe_op \<Rightarrow> pipe_heap \<Rightarrow> error + pipe_heap" where
  "exec_op (OpAlloc cap trig) s = Inr (snd (furi_pipe_alloc s cap trig))"
| "exec_op (OpAllocEx cap to_alice to_bob) s = Inr (snd (furi_pipe_alloc_ex s cap to_alice to_bob))"
| "exec_op (OpSend pipe data timeout) s = bindE (furi_pipe_send s pipe data timeout) (\<lambda>(_, s'). Inr s')"
| "exec_op (OpReceive pipe len timeout) s = bindE (furi_pipe_receive s pipe len timeout) (\<lambda>(_, s'). Inr s')"
| "exec_op (OpFree pipe) s = furi_pipe_free s pipe"
| "exec_op (OpWeld side_1 side_2) s = furi_pipe_weld s side_1 side_2"

fun run :: "pipe_op list \<Rightarrow> pipe_heap \<Rightarrow> error + pipe_heap" where
  "run [] s = Inr s"
| "run (op # ops) s = bindE (exec_op op s) (run ops)"

section \<open>The first variant of the pipe: two sides and a shared record\<close>

text \<open>
  The file holds an earlier variant of the pipe as well, without welding: the two sides
  share a \<^verbatim>\<open>FuriPipeShared\<close> with a counting semaphore and one event loop link per side.
  Its functions carry the names of the later ones; here they end in \<open>_v1\<close>. Its role enum
  has no \<open>Joint\<close> and its state enum no \<open>Welded\<close>.
\<close>

datatype FuriEventLoopEvent = FuriEventLoopEventIn | FuriEventLoopEventOut

text \<open>\<open>item_in\<close> and \<open>item_out\<close> are pointers in C; here they say whether the pointer is set
  (an event loop is subscribed).\<close>

record FuriEventLoopLink =
  item_in :: bool
  item_out :: bool

text \<open>A pointer to one of the two links inside a shared record.\<close>

datatype link_ptr = AliceLinkOf addr | BobLinkOf addr

record FuriPipeShared =
  instance_count :: nat
  state_transition :: bool
  alice_event_loop_link :: FuriEventLoopLink
  bob_event_loop_link :: FuriEventLoopLink

record FuriPipeSide_v1 =
  role_v1 :: FuriPipeRole
  shared :: addr
  sending_v1 :: addr
  receiving_v1 :: addr
  self_event_loop_link :: link_ptr
  peer_event_loop_link :: link_ptr

record FuriPipeSideReceiveSettings =
  capacity_v1 :: nat
  trigger_level_v1 :: nat

text \<open>\<open>state_transition\<close> says whether the mutex is held; \<open>notified\<close> is the log of the
  calls of \<^verbatim>\<open>furi_event_loop_link_notify\<close>, the latest last.\<close>

record pipe_heap_v1 = stream_heap +
  sides_v1 :: "addr \<rightharpoonup> FuriPipeSide_v1"
  shareds :: "addr \<rightharpoonup> FuriPipeShared"
  notified :: "(link_ptr \<times> FuriEventLoopEvent) list"

definition heap_init_v1 :: pipe_heap_v1 where
  "heap_init_v1 = \<lparr>buffers = Map.empty, next_addr = 0, sides_v1 = Map.empty,
                    shareds = Map.empty, notified = []\<rparr>"

definition get_side_v1 :: "pipe_heap_v1 \<Rightarrow> addr \<Rightarrow> error + FuriPipeSide_v1" where
  "get_side_v1 s p = (case sides_v1 s p of None \<Rightarrow> Inl InvalidPointer | Some r \<Rightarrow> Inr r)"

definition get_shared :: "pipe_heap_v1 \<Rightarrow> addr \<Rightarrow> error + FuriPipeShared" where
  "get_shared s a = (case shareds s a of None \<Rightarrow> Inl InvalidPointer | Some sh \<Rightarrow> Inr sh)"

definition get_link :: "pipe_heap_v1 \<Rightarrow> link_ptr \<Rightarrow> error + FuriEventLoopLink" where
  "get_link s l =
     (case l of
        AliceLinkOf a \<Rightarrow> bindE (get_shared s a) (\<lambda>sh. Inr (alice_event_loop_link sh))
      | BobLinkOf a \<Rightarrow> bindE (get_shared s a) (\<lambda>sh. Inr (bob_event_loop_link sh)))"

text \<open>
  Modelled from the spec: \<^verbatim>\<open>event_loop_link_i.h\<close> is not among the sources. The spec says
  the call raises the notification of the link; the model records the call.
\<close>

definition furi_event_loop_link_notify ::
  "pipe_heap_v1 \<Rightarrow> link_ptr \<Rightarrow> FuriEventLoopEvent \<Rightarrow> error + pipe_heap_v1" where
  "furi_event_loop_link_notify s l event =
     bindE (get_link s l) (\<lambda>_. Inr (s\<lparr>notified := notified s @ [(l, event)]\<rparr>))"

definition furi_pipe_alloc_ex_v1 ::
  "pipe_heap_v1 \<Rightarrow> FuriPipeSideReceiveSettings \<Rightarrow> FuriPipeSideReceiveSettings
     \<Rightarrow> FuriPipe \<times> pipe_heap_v1" where
  "furi_pipe_alloc_ex_v1 s alice bob =
     (let a2b = next_addr s;
          b2a = next_addr s + 1;
          sh = next_addr s + 2;
          alices = next_addr s + 3;
          bobs = next_addr s + 4
      in (\<lparr>alices_side = alices, bobs_side = bobs\<rparr>,
          s\<lparr>buffers := (buffers s)
                 (a2b \<mapsto> furi_stream_buffer_alloc (capacity_v1 bob) (trigger_level_v1 bob),
                  b2a \<mapsto> furi_stream_buffer_alloc (capacity_v1 alice) (trigger_level_v1 alice)),
            next_addr := next_addr s + 5,
            shareds := (shareds s)
                 (sh \<mapsto> \<lparr>instance_count = 1, state_transition = False,
                          alice_event_loop_link = \<lparr>item_in = False, item_out = False\<rparr>,
                          bob_event_loop_link = \<lparr>item_in = False, item_out = False\<rparr>\<rparr>),
            sides_v1 := (sides_v1 s)
                 (alices \<mapsto>
                    \<lparr>role_v1 = FuriPipeRoleAlice, shared = sh,
                     sending_v1 = a2b, receiving_v1 = b2a,
                     self_event_loop_link = AliceLinkOf sh,
                     peer_event_loop_link = BobLinkOf sh\<rparr>,
                  bobs \<mapsto>
                    \<lparr>role_v1 = FuriPipeRoleBob, shared = sh,
                     sending_v1 = b2a, receiving_v1 = a2b,
                     self_event_loop_link = BobLinkOf sh,
                     peer_event_loop_link = AliceLinkOf sh\<rparr>)\<rparr>))"

definition furi_pipe_alloc_v1 :: "pipe_heap_v1 \<Rightarrow> nat \<Rightarrow> nat \<Rightarrow> FuriPipe \<times> pipe_heap_v1" where
  "furi_pipe_alloc_v1 s cap trig =
     (let settings = \<lparr>capacity_v1 = cap, trigger_level_v1 = trig\<rparr>
      in furi_pipe_alloc_ex_v1 s settings settings)"

definition furi_pipe_state_v1 :: "pipe_heap_v1 \<Rightarrow> addr option \<Rightarrow> error + FuriPipeState" where
  "furi_pipe_state_v1 s pipe =
     (case pipe of None \<Rightarrow> Inl Crash | Some p \<Rightarrow>
        bindE (get_side_v1 s p) (\<lambda>r.
        bindE (get_shared s (shared r)) (\<lambda>sh.
        Inr (if instance_count sh = 1 then FuriPipeStateOpen else FuriPipeStateBroken))))"

definition furi_pipe_receive_v1 ::
  "pipe_heap_v1 \<Rightarrow> addr option \<Rightarrow> nat \<Rightarrow> FuriWait \<Rightarrow> error + (byte list \<times> pipe_heap_v1)" where
  "furi_pipe_receive_v1 s pipe len timeout =
     (case pipe of None \<Rightarrow> Inl Crash | Some p \<Rightarrow>
        bindE (get_side_v1 s p) (\<lambda>r.
        bindE (furi_event_loop_link_notify s (peer_event_loop_link r) FuriEventLoopEventOut) (\<lambda>s1.
        stream_receive s1 (receiving_v1 r) len timeout)))"

definition furi_pipe_send_v1 ::
  "pipe_heap_v1 \<Rightarrow> addr option \<Rightarrow> byte list \<Rightarrow> FuriWait \<Rightarrow> error + (nat \<times> pipe_heap_v1)" where
  "furi_pipe_send_v1 s pipe data timeout =
     (case pipe of None \<Rightarrow> Inl Crash | Some p \<Rightarrow>
        bindE (get_side_v1 s p) (\<lambda>r.
        bindE (stream_send s (sending_v1 r) data timeout) (\<lambda>(sent, s1).
        bindE (get_buffer s1 (sending_v1 r)) (\<lambda>b.
        if furi_stream_buffer_bytes_available b \<ge> furi_stream_get_trigger_level b
        then bindE (furi_event_loop_link_notify s1 (peer_event_loop_link r) FuriEventLoopEventIn)
               (\<lambda>s2. Inr (sent, s2))
        else Inr (sent, s1)))))"

section \<open>The shape of reachable heaps\<close>

text \<open>
  What every heap built by a sequence of calls satisfies: every side is in the array of the
  chain it points to; the sides of a chain's array are distinct, live and point back to the
  chain; the two buffers of a chain are distinct and live, and no two chains share a
  buffer; a side with role Alice is the front of its chain's array and uses the chain's
  buffers, a side with role Bob is the back; between calls no mutex is held; and no object
  lives at or beyond the allocator's next address. \<open>welded_side\<close> is what the weld makes
  of the side at address \<open>q\<close>.
\<close>

definition has_mutex :: "pipe_heap \<Rightarrow> addr \<Rightarrow> bool" where
  "has_mutex s p = (case sides s p of None \<Rightarrow> False | Some r \<Rightarrow> mutex r \<noteq> None)"

definition make_joint :: "FuriPipeSide \<Rightarrow> FuriPipeSide" where
  "make_joint r = r\<lparr>role := FuriPipeRoleJoint, sending := None, receiving := None\<rparr>"

definition welded_side ::
  "addr \<Rightarrow> addr \<Rightarrow> addr \<Rightarrow> FuriPipeChain \<Rightarrow> FuriPipeChain \<Rightarrow> addr \<Rightarrow> FuriPipeSide \<Rightarrow> FuriPipeSide" where
  "welded_side iB iA l L R q rec =
     rec\<lparr>chain := (if q \<in> set (pipe_sides R) then l else chain rec),
         role := (if q = iA \<or> q = iB then FuriPipeRoleJoint else role rec),
         receiving := (if q = iA \<or> q = iB then None else receiving rec),
         sending := (if q = last (pipe_sides R) then Some (bob_to_alice L)
                     else if q = hd (pipe_sides L) then Some (alice_to_bob R)
                     else if q = iA \<or> q = iB then None else sending rec)\<rparr>"

definition sides_in_chains :: "pipe_heap \<Rightarrow> bool" where
  "sides_in_chains s \<longleftrightarrow>
     (\<forall>p r. sides s p = Some r \<longrightarrow> (\<exists>c. chains s (chain r) = Some c \<and> p \<in> set (pipe_sides c)))"

definition chains_own_sides :: "pipe_heap \<Rightarrow> bool" where
  "chains_own_sides s \<longleftrightarrow>
     (\<forall>a c. chains s a = Some c \<longrightarrow>
        distinct (pipe_sides c) \<and> (\<forall>p\<in>set (pipe_sides c). \<exists>r. sides s p = Some r \<and> chain r = a))"

definition chains_own_buffers :: "pipe_heap \<Rightarrow> bool" where
  "chains_own_buffers s \<longleftrightarrow>
     (\<forall>a c. chains s a = Some c \<longrightarrow>
        alice_to_bob c \<noteq> bob_to_alice c \<and> buffers s (alice_to_bob c) \<noteq> None
        \<and> buffers s (bob_to_alice c) \<noteq> None)"

definition chains_apart :: "pipe_heap \<Rightarrow> bool" where
  "chains_apart s \<longleftrightarrow>
     (\<forall>a a' c c'. chains s a = Some c \<and> chains s a' = Some c' \<and> a \<noteq> a' \<longrightarrow>
        alice_to_bob c \<noteq> alice_to_bob c' \<and> alice_to_bob c \<noteq> bob_to_alice c'
        \<and> bob_to_alice c \<noteq> bob_to_alice c')"

definition roles_at_ends :: "pipe_heap \<Rightarrow> bool" where
  "roles_at_ends s \<longleftrightarrow>
     (\<forall>p r c. sides s p = Some r \<and> chains s (chain r) = Some c \<longrightarrow>
        (role r = FuriPipeRoleAlice \<longrightarrow>
           p = hd (pipe_sides c) \<and> sending r = Some (alice_to_bob c)
           \<and> receiving r = Some (bob_to_alice c))
      \<and> (role r = FuriPipeRoleBob \<longrightarrow>
           p = last (pipe_sides c) \<and> sending r = Some (bob_to_alice c)
           \<and> receiving r = Some (alice_to_bob c)))"

definition locks_free :: "pipe_heap \<Rightarrow> bool" where
  "locks_free s \<longleftrightarrow> (\<forall>p. held s p = 0)"

definition addrs_fresh :: "pipe_heap \<Rightarrow> bool" where
  "addrs_fresh s \<longleftrightarrow>
     (\<forall>a. next_addr s \<le> a \<longrightarrow> sides s a = None \<and> chains s a = None \<and> buffers s a = None)"

definition heap_inv :: "pipe_heap \<Rightarrow> bool" where
  "heap_inv s \<longleftrightarrow> sides_in_chains s \<and> chains_own_sides s \<and> chains_own_buffers s
     \<and> chains_apart s \<and> roles_at_ends s \<and> locks_free s \<and> addrs_fresh s"

definition welded_heap ::
  "pipe_heap \<Rightarrow> addr \<Rightarrow> addr \<Rightarrow> FuriPipeSide \<Rightarrow> FuriPipeSide \<Rightarrow> FuriPipeChain \<Rightarrow> FuriPipeChain
     \<Rightarrow> FuriStreamBuffer \<Rightarrow> FuriStreamBuffer \<Rightarrow> FuriStreamBuffer \<Rightarrow> FuriStreamBuffer \<Rightarrow> pipe_heap" where
  "welded_heap s iB iA rB rA L R vla vlb vra vrb =
     s\<lparr>held := (\<lambda>_. 0),
           buffers := (buffers s)
             (alice_to_bob L := None, bob_to_alice R := None,
              alice_to_bob R \<mapsto> vra\<lparr>sb_bytes := sb_bytes vra @
                 take (furi_stream_buffer_spaces_available vra) (sb_bytes vla)\<rparr>,
              bob_to_alice L \<mapsto> vlb\<lparr>sb_bytes := sb_bytes vlb @
                 take (furi_stream_buffer_spaces_available vlb) (sb_bytes vrb)\<rparr>),
           chains := (chains s)
             (chain rB \<mapsto> \<lparr>alice_to_bob = alice_to_bob R, bob_to_alice = bob_to_alice L,
                    pipe_sides = pipe_sides L @ pipe_sides R\<rparr>, chain rA := None),
           sides := (\<lambda>q. map_option (welded_side iB iA (chain rB) L R q) (sides s q))\<rparr>"

text \<open>
  A chain has its Alice when its array is not empty and the front has role Alice; it has
  its Bob when the back has role Bob. Two more properties of every reachable heap: no
  chain has an empty array, and the sides of one chain all have a mutex or all have none.
\<close>

definition chain_has_alice :: "pipe_heap \<Rightarrow> FuriPipeChain \<Rightarrow> bool" where
  "chain_has_alice s c \<longleftrightarrow>
     pipe_sides c \<noteq> [] \<and> map_option role (sides s (hd (pipe_sides c))) = Some FuriPipeRoleAlice"

definition chain_has_bob :: "pipe_heap \<Rightarrow> FuriPipeChain \<Rightarrow> bool" where
  "chain_has_bob s c \<longleftrightarrow>
     pipe_sides c \<noteq> [] \<and> map_option role (sides s (last (pipe_sides c))) = Some FuriPipeRoleBob"

definition chains_nonempty :: "pipe_heap \<Rightarrow> bool" where
  "chains_nonempty s \<longleftrightarrow> (\<forall>a c. chains s a = Some c \<longrightarrow> pipe_sides c \<noteq> [])"

definition mutexes_alike :: "pipe_heap \<Rightarrow> bool" where
  "mutexes_alike s \<longleftrightarrow>
     (\<forall>a c. chains s a = Some c \<longrightarrow>
        (\<forall>p\<in>set (pipe_sides c). \<forall>q\<in>set (pipe_sides c). has_mutex s p = has_mutex s q))"

section \<open>Unfolding the model\<close>

lemma bindE_simps [simp]:
  "bindE (Inl e) f = Inl e"
  "bindE (Inr x) f = f x"
  by (simp_all add: bindE_def)

lemma bindE_eq_Inr: "bindE m f = Inr y \<longleftrightarrow> (\<exists>x. m = Inr x \<and> f x = Inr y)"
  by (cases m) simp_all

lemmas stream_defs = get_buffer_def stream_send_def stream_receive_def stream_free_def
  stream_bytes_available_def stream_spaces_available_def furi_stream_buffer_send_def
  furi_stream_buffer_receive_def furi_stream_buffer_bytes_available_def
  furi_stream_buffer_spaces_available_def furi_stream_get_trigger_level_def
  furi_stream_buffer_alloc_def FuriWaitForever_def buffer_ptr_def

lemmas lock_defs = get_side_def get_chain_def furi_pipe_side_lock_def furi_pipe_side_unlock_def
  furi_mutex_acquire_def furi_mutex_release_def furi_mutex_free_def

lemmas weld_defs = furi_pipe_weld_def weld_chains_def weld_copy_residual_data_def
  weld_concat_chains_def weld_free_unneeded_def weld_update_intermediate_sides_def
  weld_update_endpoint_sides_def weld_unlock_all_sides_def

lemmas pipe_defs = heap_init_def furi_pipe_alloc_def furi_pipe_alloc_ex_def furi_pipe_role_def
  furi_pipe_state_def furi_pipe_free_def furi_pipe_send_def furi_pipe_receive_def
  furi_pipe_bytes_available_def furi_pipe_spaces_available_def Let_def

lemmas stdio_defs = furi_pipe_install_as_stdio_def furi_thread_stdout_write_def
  furi_pipe_stdout_cb_def furi_pipe_stdin_cb_def

lemmas v1_defs = heap_init_v1_def furi_pipe_alloc_v1_def furi_pipe_alloc_ex_v1_def
  furi_pipe_send_v1_def furi_pipe_receive_v1_def furi_pipe_state_v1_def get_side_v1_def
  get_shared_def get_link_def furi_event_loop_link_notify_def Let_def


section \<open>Allocation\<close>

text \<open>
  Claim C8. \<open>furi_pipe_alloc_ex\<close> creates the buffer from Alice to Bob with \<open>to_bob\<close>'s
  capacity and trigger level and the buffer from Bob to Alice with \<open>to_alice\<close>'s. The side
  returned as Alice's has role Alice, sends into the first buffer and receives from the
  second; Bob's side is mirrored. Both sides point to one chain, whose array holds exactly
  these two sides, and both report the state Open. \<open>furi_pipe_alloc\<close> is
  \<open>furi_pipe_alloc_ex\<close> with welding enabled and the same settings in both directions.
\<close>

theorem furi_pipe_alloc_ex_creates_open_pipe:
  "(let (pipe, s') = furi_pipe_alloc_ex s welding_cap to_alice to_bob;
        alice = alices_side pipe; bob = bobs_side pipe;
        a2b = next_addr s; b2a = next_addr s + 1; ch = next_addr s + 2
    in alice \<noteq> bob \<and> a2b \<noteq> b2a
     \<and> buffers s' a2b = Some (furi_stream_buffer_alloc (capacity to_bob) (trigger_level to_bob))
     \<and> buffers s' b2a = Some (furi_stream_buffer_alloc (capacity to_alice) (trigger_level to_alice))
     \<and> map_option sb_capacity (buffers s' a2b) = Some (capacity to_bob)
     \<and> map_option sb_trigger_level (buffers s' a2b) = Some (trigger_level to_bob)
     \<and> map_option sb_capacity (buffers s' b2a) = Some (capacity to_alice)
     \<and> map_option sb_trigger_level (buffers s' b2a) = Some (trigger_level to_alice)
     \<and> map_option role (sides s' alice) = Some FuriPipeRoleAlice
     \<and> map_option sending (sides s' alice) = Some (Some a2b)
     \<and> map_option receiving (sides s' alice) = Some (Some b2a)
     \<and> map_option role (sides s' bob) = Some FuriPipeRoleBob
     \<and> map_option sending (sides s' bob) = Some (Some b2a)
     \<and> map_option receiving (sides s' bob) = Some (Some a2b)
     \<and> map_option chain (sides s' alice) = Some ch
     \<and> map_option chain (sides s' bob) = Some ch
     \<and> chains s' ch = Some \<lparr>alice_to_bob = a2b, bob_to_alice = b2a, pipe_sides = [alice, bob]\<rparr>
     \<and> furi_pipe_state s' (Some alice) = Inr FuriPipeStateOpen
     \<and> furi_pipe_state s' (Some bob) = Inr FuriPipeStateOpen)
   \<and> furi_pipe_alloc s cap trig =
       furi_pipe_alloc_ex s FuriPipeWeldingCapEnabled
         \<lparr>capacity = cap, trigger_level = trig\<rparr> \<lparr>capacity = cap, trigger_level = trig\<rparr>"
  by (simp add: furi_pipe_alloc_ex_def furi_pipe_alloc_def furi_pipe_state_def Let_def
      furi_pipe_side_lock_def furi_pipe_side_unlock_def get_side_def get_chain_def
      furi_mutex_acquire_def furi_stream_buffer_alloc_def)

section \<open>Sending in the first variant\<close>

text \<open>
  Claim C5 says that a send notifies the peer's link exactly when the level of the sending
  buffer crosses the trigger level upward, and not when it starts at or above it. With
  capacity 16 and trigger level 1, Alice (side 3) sends \<open>a\<close>: the level goes from 0 to 1
  and Bob's link is notified. She sends \<open>b\<close>: the level starts at 1, which is the trigger
  level already, and Bob's link is notified again.
\<close>

theorem furi_pipe_send_v1_notifies_without_crossing:
  "bindE (furi_pipe_send_v1 (snd (furi_pipe_alloc_v1 heap_init_v1 16 1)) (Some 3) ''a'' 0) (\<lambda>(n1, s1).
   bindE (stream_bytes_available s1 0) (\<lambda>level.
   bindE (furi_pipe_send_v1 s1 (Some 3) ''b'' 0) (\<lambda>(n2, s2).
     Inr (n1, level, notified s1, n2, notified s2))))
   = Inr (1, 1, [(BobLinkOf 2, FuriEventLoopEventIn)],
          1, [(BobLinkOf 2, FuriEventLoopEventIn), (BobLinkOf 2, FuriEventLoopEventIn)])"
  by (simp add: v1_defs stream_defs)

text \<open>
  Claim C5, amended. A send on a live side whose buffer and peer link are live, and that
  does not wait forever, returns the number of bytes that fit, appends them to the sending
  buffer, and notifies the peer's link with the event In exactly when the level of the
  sending buffer after the send is at or above its trigger level: once for this send,
  whatever the level was before it, and not at all when the level stays below.
\<close>

theorem furi_pipe_send_v1_notifies_at_trigger_level:
  assumes "sides_v1 s p = Some r"
    and "buffers s (sending_v1 r) = Some b"
    and "get_link s (peer_event_loop_link r) = Inr l"
    and "\<not> (data \<noteq> [] \<and> furi_stream_buffer_spaces_available b = 0 \<and> timeout = FuriWaitForever)"
  shows "furi_pipe_send_v1 s (Some p) data timeout =
     (let sent = min (length data) (furi_stream_buffer_spaces_available b);
          b' = b\<lparr>sb_bytes := sb_bytes b @ take sent data\<rparr>
      in Inr (sent,
          s\<lparr>buffers := (buffers s)(sending_v1 r \<mapsto> b'),
            notified := notified s @
              (if furi_stream_buffer_bytes_available b' \<ge> furi_stream_get_trigger_level b'
               then [(peer_event_loop_link r, FuriEventLoopEventIn)] else [])\<rparr>))"
  using assms
  by (cases "peer_event_loop_link r")
     (auto simp add: v1_defs stream_defs min_def split: sum.splits option.splits)

theorem furi_pipe_send_v1_notifies_at_trigger_level_witness:
  "sides_v1 (snd (furi_pipe_alloc_v1 heap_init_v1 4 2)) 3 =
     Some \<lparr>role_v1 = FuriPipeRoleAlice, shared = 2, sending_v1 = 0, receiving_v1 = 1,
           self_event_loop_link = AliceLinkOf 2, peer_event_loop_link = BobLinkOf 2\<rparr>
   \<and> buffers (snd (furi_pipe_alloc_v1 heap_init_v1 4 2)) 0 = Some (furi_stream_buffer_alloc 4 2)
   \<and> get_link (snd (furi_pipe_alloc_v1 heap_init_v1 4 2)) (BobLinkOf 2) =
       Inr \<lparr>item_in = False, item_out = False\<rparr>
   \<and> map_sum id (\<lambda>(n, s'). (n, notified s'))
        (furi_pipe_send_v1 (snd (furi_pipe_alloc_v1 heap_init_v1 4 2)) (Some 3) ''a'' 0) = Inr (1, [])
   \<and> map_sum id (\<lambda>(n, s'). (n, notified s'))
        (furi_pipe_send_v1 (snd (furi_pipe_alloc_v1 heap_init_v1 4 2)) (Some 3) ''abcdef'' 0) =
       Inr (4, [(BobLinkOf 2, FuriEventLoopEventIn)])"
proof -
  let ?s = "snd (furi_pipe_alloc_v1 heap_init_v1 4 2)"
  let ?r = "\<lparr>role_v1 = FuriPipeRoleAlice, shared = 2, sending_v1 = 0, receiving_v1 = 1,
           self_event_loop_link = AliceLinkOf 2, peer_event_loop_link = BobLinkOf 2\<rparr>"
  have side: "sides_v1 ?s 3 = Some ?r"
    by (simp add: v1_defs)
  have buf: "buffers ?s (sending_v1 ?r) = Some (furi_stream_buffer_alloc 4 2)"
    by (simp add: v1_defs stream_defs)
  have link: "get_link ?s (peer_event_loop_link ?r) = Inr \<lparr>item_in = False, item_out = False\<rparr>"
    by (simp add: v1_defs)
  have free1: "\<not> (''a'' \<noteq> [] \<and> furi_stream_buffer_spaces_available (furi_stream_buffer_alloc 4 2) = 0
                 \<and> (0::nat) = FuriWaitForever)"
    by (simp add: stream_defs)
  have free2: "\<not> (''abcdef'' \<noteq> [] \<and> furi_stream_buffer_spaces_available (furi_stream_buffer_alloc 4 2) = 0
                 \<and> (0::nat) = FuriWaitForever)"
    by (simp add: stream_defs)
  note one = furi_pipe_send_v1_notifies_at_trigger_level [OF side buf link free1]
  note two = furi_pipe_send_v1_notifies_at_trigger_level [OF side buf link free2]
  have a: "map_sum id (\<lambda>(n, s'). (n, notified s')) (furi_pipe_send_v1 ?s (Some 3) ''a'' 0) = Inr (1, [])"
    unfolding one by (simp add: v1_defs stream_defs)
  have b: "map_sum id (\<lambda>(n, s'). (n, notified s')) (furi_pipe_send_v1 ?s (Some 3) ''abcdef'' 0)
             = Inr (4, [(BobLinkOf 2, FuriEventLoopEventIn)])"
    unfolding two by (simp add: v1_defs stream_defs)
  from side buf link a b show ?thesis
    by simp
qed

section \<open>The stdio callback of the weldable pipe\<close>

text \<open>
  Claim C10. Once \<open>furi_pipe_install_as_stdio\<close> has registered side \<open>p\<close>, a write to the
  thread's stdout goes through the callback straight into the sending buffer of \<open>p\<close>: no
  lock is taken and \<open>furi_pipe_send\<close> is not called. The callback presupposes that
  \<open>sending\<close> is set: when it is null (the side was welded into a joint) the buffer call gets
  a null pointer, where \<open>furi_pipe_send\<close> would have returned 0. When the buffer takes the
  whole write, the callback returns with the bytes appended; when it takes only a part
  (some space, but less than the write), the check fires and the firmware crashes: there
  is no retry and no short count. (With no space at all the send waits forever.)
\<close>

theorem furi_pipe_stdout_cb_all_or_crash:
  assumes "sides s p = Some r"
    and "s1 = s\<lparr>thread_stdout := Some p, thread_stdin := Some p\<rparr>"
  shows "furi_pipe_install_as_stdio s (Some p) = Inr s1
    \<and> (sending r = None \<longrightarrow>
         furi_thread_stdout_write s1 data = Inl InvalidPointer
       \<and> (held s p = 0 \<longrightarrow> furi_pipe_send s1 (Some p) data timeout = Inr (0, s1)))
    \<and> (\<forall>b v. sending r = Some b \<and> buffers s b = Some v \<longrightarrow>
         furi_thread_stdout_write s1 data =
           (if data \<noteq> [] \<and> furi_stream_buffer_spaces_available v = 0 then Inl Blocked
            else if length data \<le> furi_stream_buffer_spaces_available v
            then Inr (s1\<lparr>buffers := (buffers s1)(b \<mapsto> v\<lparr>sb_bytes := sb_bytes v @ data\<rparr>)\<rparr>)
            else Inl Crash))"
  using assms
  by (auto simp add: stdio_defs pipe_defs stream_defs lock_defs fun_upd_idem split: option.splits)

theorem furi_pipe_stdout_cb_all_or_crash_witness:
  "sides (snd (furi_pipe_alloc heap_init 4 1)) 3 =
     Some \<lparr>mutex = Some FuriMutexTypeRecursive, role = FuriPipeRoleAlice, chain = 2,
           sending = Some 0, receiving = Some 1,
           send_settings = \<lparr>capacity = 4, trigger_level = 1\<rparr>\<rparr>
   \<and> buffers (snd (furi_pipe_alloc heap_init 4 1)) 0 = Some (furi_stream_buffer_alloc 4 1)
   \<and> map_sum id (\<lambda>s'. map_option sb_bytes (buffers s' 0))
        (furi_thread_stdout_write
           ((snd (furi_pipe_alloc heap_init 4 1))\<lparr>thread_stdout := Some 3, thread_stdin := Some 3\<rparr>)
           ''hi'') = Inr (Some ''hi'')
   \<and> furi_thread_stdout_write
        ((snd (furi_pipe_alloc heap_init 4 1))\<lparr>thread_stdout := Some 3, thread_stdin := Some 3\<rparr>)
        ''hello'' = Inl Crash"
proof -
  let ?s = "snd (furi_pipe_alloc heap_init 4 1)"
  let ?s1 = "?s\<lparr>thread_stdout := Some 3, thread_stdin := Some 3\<rparr>"
  let ?r = "\<lparr>mutex = Some FuriMutexTypeRecursive, role = FuriPipeRoleAlice, chain = 2,
           sending = Some 0, receiving = Some 1,
           send_settings = \<lparr>capacity = 4, trigger_level = 1\<rparr>\<rparr>"
  have side: "sides ?s 3 = Some ?r"
    by (simp add: pipe_defs)
  have buf: "buffers ?s 0 = Some (furi_stream_buffer_alloc 4 1)"
    by (simp add: pipe_defs)
  have snd_r: "sending ?r = Some 0"
    by simp
  from furi_pipe_stdout_cb_all_or_crash [OF side refl, of "''hi''"] snd_r buf
  have hi: "furi_thread_stdout_write ?s1 ''hi'' =
      Inr (?s1\<lparr>buffers := (buffers ?s1)(0 \<mapsto>
              (furi_stream_buffer_alloc 4 1)\<lparr>sb_bytes := sb_bytes (furi_stream_buffer_alloc 4 1) @ ''hi''\<rparr>)\<rparr>)"
    by (simp add: stream_defs)
  from furi_pipe_stdout_cb_all_or_crash [OF side refl, of "''hello''"] snd_r buf
  have hello: "furi_thread_stdout_write ?s1 ''hello'' = Inl Crash"
    by (simp add: stream_defs)
  have "map_sum id (\<lambda>s'. map_option sb_bytes (buffers s' 0)) (furi_thread_stdout_write ?s1 ''hi'')
          = Inr (Some ''hi'')"
    unfolding hi by (simp add: stream_defs)
  with side buf hello show ?thesis
    by simp
qed

section \<open>Welding: what the code does at four inputs\<close>

text \<open>
  Claim C1 says that a weld loses no byte: all bytes buffered in the left chain's
  \<open>alice_to_bob\<close> are appended to the adopted buffer. Two pipes of capacity 4: pipe P has
  buffers 0 and 1, chain 2 and sides 3 (Alice) and 4 (Bob); pipe Q has buffers 5 and 6,
  chain 7 and sides 8 and 9. P's Alice sends \<open>12\<close> and Q's Alice sends \<open>abc\<close>; then P's Bob
  is welded to Q's Alice. The adopted buffer 5 has room for one more byte: it ends as
  \<open>abc1\<close>, buffer 0 is freed, and the byte \<open>2\<close> is gone; Q's Bob receives \<open>abc1\<close> and
  then nothing. The count that the send returns is not looked at, and the check after it
  only sees that the buffer given up is empty.
\<close>

theorem furi_pipe_weld_drops_what_does_not_fit:
  "bindE (run [OpAlloc 4 1, OpAlloc 4 1, OpSend (Some 3) ''12'' 0, OpSend (Some 8) ''abc'' 0] heap_init)
     (\<lambda>s. Inr (map_option sb_bytes (buffers s 0), map_option sb_bytes (buffers s 5),
                map_option sb_capacity (buffers s 5)))
     = Inr (Some ''12'', Some ''abc'', Some 4)
 \<and> bindE (run [OpAlloc 4 1, OpAlloc 4 1, OpSend (Some 3) ''12'' 0, OpSend (Some 8) ''abc'' 0,
              OpWeld (Some 4) (Some 8)] heap_init)
     (\<lambda>s. Inr (map_option alice_to_bob (chains s 2), map_option sb_bytes (buffers s 5),
                map_option sb_bytes (buffers s 0)))
     = Inr (Some 5, Some ''abc1'', None)
 \<and> bindE (run [OpAlloc 4 1, OpAlloc 4 1, OpSend (Some 3) ''12'' 0, OpSend (Some 8) ''abc'' 0,
              OpWeld (Some 4) (Some 8)] heap_init)
     (\<lambda>s. bindE (furi_pipe_receive s (Some 9) 4 0) (\<lambda>(out, s').
          bindE (furi_pipe_receive s' (Some 9) 4 0) (\<lambda>(out', _). Inr (out, out'))))
     = Inr (''abc1'', [])"
  by (simp add: pipe_defs stream_defs lock_defs weld_defs)

text \<open>
  Claim C4 says that once the state of a side was Broken it is never Open again. Two pipes
  as above, of capacity 8. P's Alice (3) and Q's Bob (9) are freed: P's Bob (4) reports
  Broken. Then P's Bob is welded to Q's Alice (8): the merged chain has two sides, and the
  state of side 4 is Open.
\<close>

theorem furi_pipe_state_open_after_broken:
  "bindE (run [OpAlloc 8 1, OpAlloc 8 1, OpFree (Some 3), OpFree (Some 9)] heap_init)
     (\<lambda>s. furi_pipe_state s (Some 4)) = Inr FuriPipeStateBroken
 \<and> bindE (run [OpAlloc 8 1, OpAlloc 8 1, OpFree (Some 3), OpFree (Some 9),
              OpWeld (Some 4) (Some 8)] heap_init)
     (\<lambda>s. furi_pipe_state s (Some 4)) = Inr FuriPipeStateOpen"
  by (simp add: pipe_defs stream_defs lock_defs weld_defs)

text \<open>
  Claim C6 says that on a joint send and receive return 0 and touch no buffer, and both
  availability calls return 0. P's Alice (3) is freed and P's Bob (4) is welded to Q's
  Alice (8). Side 4 is then the front of the merged array, so the last step of the weld
  gives it the chain's buffer as its sending buffer, after its role was set to Joint and
  its buffers cleared. Side 4 has role Joint, reports 8 bytes of space, its send of \<open>x\<close>
  returns 1, and Q's Bob (9) receives \<open>x\<close>.
\<close>

theorem furi_pipe_send_on_front_joint_writes:
  "bindE (run [OpAlloc 8 1, OpAlloc 8 1, OpFree (Some 3), OpWeld (Some 4) (Some 8)] heap_init)
     (\<lambda>s. bindE (furi_pipe_role s (Some 4)) (\<lambda>r.
          bindE (furi_pipe_spaces_available s (Some 4)) (\<lambda>n.
          bindE (furi_pipe_send s (Some 4) ''x'' 0) (\<lambda>(sent, s').
          bindE (furi_pipe_receive s' (Some 9) 8 0) (\<lambda>(out, _). Inr (r, n, sent, out))))))
     = Inr (FuriPipeRoleJoint, 8, 1, ''x'')"
  by (simp add: pipe_defs stream_defs lock_defs weld_defs)

text \<open>
  Claim C7 says that a weld whose arguments have the same role, or belong to the same
  chain, is a fatal failure. Bob's side (4) of a fresh pipe has role Bob and a mutex of
  type Normal. Welding it to itself locks that mutex twice, before any role is looked at:
  the second acquire waits forever, and the check is never reached. Alice's mutex is
  recursive, and welding her side (3) to itself does reach the check.
\<close>

theorem furi_pipe_weld_same_bob_blocks:
  "bindE (run [OpAlloc 8 1] heap_init)
     (\<lambda>s. Inr (map_option role (sides s 4), map_option mutex (sides s 4)))
     = Inr (Some FuriPipeRoleBob, Some (Some FuriMutexTypeNormal))
  \<and> run [OpAlloc 8 1, OpWeld (Some 4) (Some 4)] heap_init = Inl Blocked
  \<and> run [OpAlloc 8 1, OpWeld (Some 3) (Some 3)] heap_init = Inl Crash"
  by (simp add: pipe_defs stream_defs lock_defs weld_defs)

section \<open>The weld, step by step\<close>

lemma lock_sides_except_result:
  assumes "\<forall>p\<in>set ps. sides s p \<noteq> None" and "distinct ps"
    and "\<forall>p\<in>set ps. p \<noteq> skip \<longrightarrow> held s p = 0"
  shows "lock_sides_except skip ps s =
           Inr (s\<lparr>held := (\<lambda>q. if q \<in> set ps \<and> q \<noteq> skip \<and> has_mutex s q then 1 else held s q)\<rparr>)"
  using assms
proof (induction ps arbitrary: s)
  case Nil
  then show ?case by simp
next
  case (Cons p ps)
  from Cons.prems obtain r where r: "sides s p = Some r" by auto
  show ?case
  proof (cases "p = skip")
    case True
    have "(\<lambda>q. if q \<in> set ps \<and> q \<noteq> skip \<and> has_mutex s q then 1 else held s q)
        = (\<lambda>q. if q \<in> set (p # ps) \<and> q \<noteq> skip \<and> has_mutex s q then 1 else held s q)"
      using True by auto
    with True Cons.IH [of s] Cons.prems show ?thesis by simp
  next
    case False
    show ?thesis
    proof (cases "mutex r")
      case None
      have eq: "(\<lambda>q. if q \<in> set ps \<and> q \<noteq> skip \<and> has_mutex s q then 1 else held s q)
        = (\<lambda>q. if q \<in> set (p # ps) \<and> q \<noteq> skip \<and> has_mutex s q then 1 else held s q)"
        using None r by (auto simp add: has_mutex_def fun_eq_iff)
      have "furi_pipe_side_lock s p = Inr s"
        using r None by (simp add: lock_defs)
      with False Cons.IH [of s] Cons.prems eq show ?thesis by simp
    next
      case (Some t)
      let ?s1 = "s\<lparr>held := (held s)(p := held s p + 1)\<rparr>"
      have h0: "held s p = 0" using Cons.prems False by simp
      have lock: "furi_pipe_side_lock s p = Inr ?s1"
        using r Some h0 by (simp add: lock_defs)
      have pre: "\<forall>q\<in>set ps. sides ?s1 q \<noteq> None" "distinct ps"
        "\<forall>q\<in>set ps. q \<noteq> skip \<longrightarrow> held ?s1 q = 0"
        using Cons.prems by auto
      have eq: "(\<lambda>q. if q \<in> set ps \<and> q \<noteq> skip \<and> has_mutex ?s1 q then 1 else held ?s1 q)
        = (\<lambda>q. if q \<in> set (p # ps) \<and> q \<noteq> skip \<and> has_mutex s q then 1 else held s q)"
        using Some r h0 False by (auto simp add: has_mutex_def fun_eq_iff)
      from Cons.IH [OF pre] lock False eq show ?thesis by simp
    qed
  qed
qed

lemma unlock_sides_result:
  assumes "\<forall>p\<in>set ps. sides s p \<noteq> None" and "distinct ps"
  shows "unlock_sides ps s =
           Inr (s\<lparr>held := (\<lambda>q. if q \<in> set ps \<and> has_mutex s q then held s q - 1 else held s q)\<rparr>)"
  using assms
proof (induction ps arbitrary: s)
  case Nil
  then show ?case by simp
next
  case (Cons p ps)
  from Cons.prems obtain r where r: "sides s p = Some r" by auto
  let ?s1 = "if mutex r = None then s else s\<lparr>held := (held s)(p := held s p - 1)\<rparr>"
  have unlock: "furi_pipe_side_unlock s p = Inr ?s1"
    using r by (auto simp add: lock_defs split: option.splits)
  have pre: "\<forall>q\<in>set ps. sides ?s1 q \<noteq> None" "distinct ps"
    using Cons.prems by auto
  have eq: "(\<lambda>q. if q \<in> set ps \<and> has_mutex ?s1 q then held ?s1 q - 1 else held ?s1 q)
        = (\<lambda>q. if q \<in> set (p # ps) \<and> has_mutex s q then held s q - 1 else held s q)"
    using r Cons.prems by (auto simp add: has_mutex_def fun_eq_iff)
  have "unlock_sides ps ?s1 = Inr (?s1\<lparr>held := (\<lambda>q. if q \<in> set ps \<and> has_mutex ?s1 q then held ?s1 q - 1 else held ?s1 q)\<rparr>)"
    by (rule Cons.IH [OF pre])
  with unlock eq show ?case by (simp split: if_splits)
qed

lemma concat_sides_result:
  assumes "chains s l = Some L" and "\<forall>p\<in>set ps. sides s p \<noteq> None"
  shows "concat_sides l ps s =
           Inr (s\<lparr>sides := (\<lambda>q. if q \<in> set ps then map_option (\<lambda>r. r\<lparr>chain := l\<rparr>) (sides s q)
                                 else sides s q),
                 chains := (chains s)(l \<mapsto> L\<lparr>pipe_sides := pipe_sides L @ ps\<rparr>)\<rparr>)"
  using assms
proof (induction ps arbitrary: s L)
  case Nil
  then show ?case by (simp add: fun_upd_idem)
next
  case (Cons p ps)
  from Cons.prems obtain r where r: "sides s p = Some r" by auto
  let ?L1 = "L\<lparr>pipe_sides := pipe_sides L @ [p]\<rparr>"
  let ?s1 = "s\<lparr>sides := (sides s)(p \<mapsto> r\<lparr>chain := l\<rparr>), chains := (chains s)(l \<mapsto> ?L1)\<rparr>"
  have pre: "chains ?s1 l = Some ?L1" "\<forall>q\<in>set ps. sides ?s1 q \<noteq> None"
    using Cons.prems by auto
  have eq: "(\<lambda>q. if q \<in> set ps then map_option (\<lambda>r. r\<lparr>chain := l\<rparr>) (sides ?s1 q) else sides ?s1 q)
      = (\<lambda>q. if q \<in> set (p # ps) then map_option (\<lambda>r. r\<lparr>chain := l\<rparr>) (sides s q) else sides s q)"
    using r by (auto simp add: fun_eq_iff)
  have st: "?s1\<lparr>sides := (\<lambda>q. if q \<in> set ps then map_option (\<lambda>r. r\<lparr>chain := l\<rparr>) (sides ?s1 q)
                                 else sides ?s1 q),
                 chains := (chains ?s1)(l \<mapsto> ?L1\<lparr>pipe_sides := pipe_sides ?L1 @ ps\<rparr>)\<rparr>
          = s\<lparr>sides := (\<lambda>q. if q \<in> set (p # ps) then map_option (\<lambda>r. r\<lparr>chain := l\<rparr>) (sides s q)
                                 else sides s q),
                 chains := (chains s)(l \<mapsto> L\<lparr>pipe_sides := pipe_sides L @ p # ps\<rparr>)\<rparr>"
    by (subst eq) simp
  have step: "concat_sides l (p # ps) s = concat_sides l ps ?s1"
    using r Cons.prems(1) by (simp add: lock_defs)
  show ?case
    unfolding step Cons.IH [OF pre] st ..
qed

lemma take_max_length [simp]:
  "take (max (length xs) n) xs = xs" "take (max n (length xs)) xs = xs"
  "drop (max (length xs) n) xs = []" "drop (max n (length xs)) xs = []"
  by simp_all

lemma take_min_max_length [simp]:
  "take (min m (max (length xs) n)) xs = take m xs"
  "take (min m (max n (length xs))) xs = take m xs"
  by (simp_all add: min_def max_def)

lemma weld_copy_residual_data_result:
  assumes "chains s l = Some L" and "chains s r = Some R"
    and "buffers s (alice_to_bob L) = Some vla" and "buffers s (bob_to_alice L) = Some vlb"
    and "buffers s (alice_to_bob R) = Some vra" and "buffers s (bob_to_alice R) = Some vrb"
    and "alice_to_bob L \<noteq> bob_to_alice L" and "alice_to_bob L \<noteq> alice_to_bob R"
    and "alice_to_bob L \<noteq> bob_to_alice R" and "bob_to_alice L \<noteq> alice_to_bob R"
    and "bob_to_alice L \<noteq> bob_to_alice R" and "alice_to_bob R \<noteq> bob_to_alice R"
  shows "weld_copy_residual_data s l r =
     Inr (s\<lparr>buffers := (buffers s)
            (alice_to_bob L \<mapsto> vla\<lparr>sb_bytes := []\<rparr>,
             alice_to_bob R \<mapsto> vra\<lparr>sb_bytes := sb_bytes vra @
                 take (furi_stream_buffer_spaces_available vra) (sb_bytes vla)\<rparr>,
             bob_to_alice R \<mapsto> vrb\<lparr>sb_bytes := []\<rparr>,
             bob_to_alice L \<mapsto> vlb\<lparr>sb_bytes := sb_bytes vlb @
                 take (furi_stream_buffer_spaces_available vlb) (sb_bytes vrb)\<rparr>)\<rparr>)"
  using assms
  by (simp add: weld_copy_residual_data_def stream_defs lock_defs Let_def)

lemma has_mutex_cong:
  "map_option mutex (sides s q) = map_option mutex (sides s' q) \<Longrightarrow> has_mutex s q = has_mutex s' q"
  by (cases "sides s q"; cases "sides s' q") (auto simp add: has_mutex_def)

lemma chain_record_eq:
  "(L::FuriPipeChain)\<lparr>pipe_sides := xs, alice_to_bob := a\<rparr> =
     \<lparr>alice_to_bob = a, bob_to_alice = bob_to_alice L, pipe_sides = xs\<rparr>"
  by (cases L) simp

lemma weld_chains_result:
  fixes s :: pipe_heap
  assumes L: "chains s l = Some L" and R: "chains s r = Some R" and lr: "l \<noteq> r"
    and vla: "buffers s (alice_to_bob L) = Some vla" and vlb: "buffers s (bob_to_alice L) = Some vlb"
    and vra: "buffers s (alice_to_bob R) = Some vra" and vrb: "buffers s (bob_to_alice R) = Some vrb"
    and ne: "alice_to_bob L \<noteq> bob_to_alice L" "alice_to_bob L \<noteq> alice_to_bob R"
      "alice_to_bob L \<noteq> bob_to_alice R" "bob_to_alice L \<noteq> alice_to_bob R"
      "bob_to_alice L \<noteq> bob_to_alice R" "alice_to_bob R \<noteq> bob_to_alice R"
    and xs_live: "\<forall>p\<in>set (pipe_sides L). sides s p \<noteq> None"
    and ys_live: "\<forall>p\<in>set (pipe_sides R). sides s p \<noteq> None"
    and dist: "distinct (pipe_sides L @ pipe_sides R)"
    and iB: "iB \<in> set (pipe_sides L)" and iA: "iA \<in> set (pipe_sides R)"
    and mA: "has_mutex s iA" and mB: "has_mutex s iB"
    and held: "held s = (\<lambda>q. if q = iA \<or> q = iB then 1 else 0)"
  shows "weld_chains s iB iA l r =
     Inr (s\<lparr>held := (\<lambda>_. 0),
           buffers := (buffers s)
             (alice_to_bob L := None, bob_to_alice R := None,
              alice_to_bob R \<mapsto> vra\<lparr>sb_bytes := sb_bytes vra @
                 take (furi_stream_buffer_spaces_available vra) (sb_bytes vla)\<rparr>,
              bob_to_alice L \<mapsto> vlb\<lparr>sb_bytes := sb_bytes vlb @
                 take (furi_stream_buffer_spaces_available vlb) (sb_bytes vrb)\<rparr>),
           chains := (chains s)
             (l \<mapsto> \<lparr>alice_to_bob = alice_to_bob R, bob_to_alice = bob_to_alice L,
                    pipe_sides = pipe_sides L @ pipe_sides R\<rparr>, r := None),
           sides := (\<lambda>q. map_option (welded_side iB iA l L R q) (sides s q))\<rparr>)"
proof -
  let ?xs = "pipe_sides L" and ?ys = "pipe_sides R"
  have dx: "distinct ?xs" and dy: "distinct ?ys" and disj: "set ?xs \<inter> set ?ys = {}"
    using dist by auto
  have xs_ne: "?xs \<noteq> []" and ys_ne: "?ys \<noteq> []" using iA iB by auto
  have iAB: "iA \<notin> set ?xs" "iB \<notin> set ?ys" "iA \<noteq> iB" using iA iB disj by auto
  \<comment> \<open>lock all sides in both chains\<close>
  define s1 where "s1 = s\<lparr>held := (\<lambda>q. if q \<in> set ?xs \<and> q \<noteq> iB \<and> has_mutex s q then 1 else held s q)\<rparr>"
  have l1: "lock_sides_except iB ?xs s = Inr s1"
    unfolding s1_def using xs_live dx iAB held
    by (intro lock_sides_except_result) auto
  have s1_sides: "sides s1 = sides s" and s1_chains: "chains s1 = chains s"
    by (simp_all add: s1_def)
  have hm1: "has_mutex s1 = has_mutex s" by (simp add: fun_eq_iff has_mutex_def s1_sides)
  define s2 where "s2 = s1\<lparr>held := (\<lambda>q. if q \<in> set ?ys \<and> q \<noteq> iA \<and> has_mutex s1 q then 1 else held s1 q)\<rparr>"
  have l2: "lock_sides_except iA ?ys s1 = Inr s2"
    unfolding s2_def using ys_live dy iAB held disj
    by (intro lock_sides_except_result) (auto simp add: s1_def)
  have s2_eq: "s2 = s\<lparr>held := (\<lambda>q. if q \<in> set (?xs @ ?ys) \<and> has_mutex s q then 1 else 0)\<rparr>"
    using held mA mB iA iB by (auto simp add: s2_def s1_def hm1 fun_eq_iff has_mutex_def)
  \<comment> \<open>copy residual data\<close>
  define s3 where "s3 = s2\<lparr>buffers := (buffers s2)
            (alice_to_bob L \<mapsto> vla\<lparr>sb_bytes := []\<rparr>,
             alice_to_bob R \<mapsto> vra\<lparr>sb_bytes := sb_bytes vra @
                 take (furi_stream_buffer_spaces_available vra) (sb_bytes vla)\<rparr>,
             bob_to_alice R \<mapsto> vrb\<lparr>sb_bytes := []\<rparr>,
             bob_to_alice L \<mapsto> vlb\<lparr>sb_bytes := sb_bytes vlb @
                 take (furi_stream_buffer_spaces_available vlb) (sb_bytes vrb)\<rparr>)\<rparr>"
  have copy: "weld_copy_residual_data s2 l r = Inr s3"
    unfolding s3_def using L R vla vlb vra vrb ne
    by (intro weld_copy_residual_data_result) (simp_all add: s2_eq)
  \<comment> \<open>concat right chain to left chain\<close>
  define s4 where "s4 = s3\<lparr>sides := (\<lambda>q. if q \<in> set ?ys then map_option (\<lambda>r. r\<lparr>chain := l\<rparr>) (sides s3 q)
                                 else sides s3 q),
                 chains := (chains s3)(l \<mapsto> L\<lparr>pipe_sides := ?xs @ ?ys\<rparr>)\<rparr>"
  have concat: "weld_concat_chains s3 l r = Inr s4"
    using L R ys_live concat_sides_result [of s3 l L ?ys]
    by (simp add: weld_concat_chains_def get_chain_def s4_def s3_def s2_eq)
  \<comment> \<open>free unneeded things\<close>
  define s5 where "s5 = s4\<lparr>buffers := (buffers s4)(alice_to_bob L := None, bob_to_alice R := None),
       chains := (chains s4)(l \<mapsto> \<lparr>alice_to_bob = alice_to_bob R, bob_to_alice = bob_to_alice L,
                    pipe_sides = ?xs @ ?ys\<rparr>, r := None)\<rparr>"
  have free: "weld_free_unneeded s4 l r = Inr s5"
    using L R lr ne
    by (simp add: weld_free_unneeded_def get_chain_def stream_defs s5_def s4_def s3_def s2_eq
        chain_record_eq)
  \<comment> \<open>update intermediate sides\<close>
  define s6 where "s6 = s5\<lparr>sides := (sides s5)(iB := map_option make_joint (sides s5 iB),
                                          iA := map_option make_joint (sides s5 iA))\<rparr>"
  have live5: "\<forall>p\<in>set (?xs @ ?ys). sides s5 p \<noteq> None"
    using xs_live ys_live by (auto simp add: s5_def s4_def s3_def s2_eq)
  have upd_int: "weld_update_intermediate_sides s5 iB iA = Inr s6"
  proof -
    obtain rb where rb: "sides s5 iB = Some rb" using live5 iB by auto
    obtain ra where ra: "sides s5 iA = Some ra" using live5 iA by auto
    show ?thesis
      using rb ra iAB
      by (simp add: weld_update_intermediate_sides_def get_side_def make_joint_def Let_def s6_def)
  qed
  \<comment> \<open>update endpoint (chain) sides\<close>
  define s7 where "s7 = s6\<lparr>sides := (sides s6)
       (hd ?xs := map_option (\<lambda>r. r\<lparr>sending := Some (alice_to_bob R)\<rparr>) (sides s6 (hd ?xs)),
        last ?ys := map_option (\<lambda>r. r\<lparr>sending := Some (bob_to_alice L)\<rparr>)
            (((sides s6)(hd ?xs := map_option (\<lambda>r. r\<lparr>sending := Some (alice_to_bob R)\<rparr>)
                 (sides s6 (hd ?xs)))) (last ?ys)))\<rparr>"
  have hd_in: "hd ?xs \<in> set ?xs" and last_in: "last ?ys \<in> set ?ys"
    using xs_ne ys_ne by simp_all
  with disj have "hd ?xs \<noteq> last ?ys" by auto
  note front_back = hd_in last_in this
  have live6: "\<forall>p\<in>set (?xs @ ?ys). sides s6 p \<noteq> None"
    using xs_live ys_live by (auto simp add: s6_def s5_def s4_def s3_def s2_eq)
  have ch6: "chains s6 l = Some \<lparr>alice_to_bob = alice_to_bob R, bob_to_alice = bob_to_alice L,
                    pipe_sides = ?xs @ ?ys\<rparr>"
    using lr by (simp add: s6_def s5_def)
  have upd_end: "weld_update_endpoint_sides s6 l = Inr s7"
  proof -
    obtain x xs' where xs: "?xs = x # xs'" using xs_ne by (cases ?xs) auto
    obtain rf where rf: "sides s6 (hd ?xs) = Some rf" using live6 front_back by auto
    obtain rk where rk: "sides s6 (last ?ys) = Some rk" using live6 front_back by auto
    show ?thesis
      using ch6 xs rf rk front_back ys_ne
      by (simp add: weld_update_endpoint_sides_def get_chain_def get_side_def Let_def s7_def)
  qed
  \<comment> \<open>unlock all sides\<close>
  have ch7: "chains s7 l = Some \<lparr>alice_to_bob = alice_to_bob R, bob_to_alice = bob_to_alice L,
                    pipe_sides = ?xs @ ?ys\<rparr>"
    using ch6 by (simp add: s7_def)
  have live7: "\<forall>p\<in>set (?xs @ ?ys). sides s7 p \<noteq> None"
    using live6 by (auto simp add: s7_def)
  have S4: "sides s4 = (\<lambda>q. if q \<in> set ?ys then map_option (\<lambda>r. r\<lparr>chain := l\<rparr>) (sides s q)
                                 else sides s q)"
    by (auto simp add: fun_eq_iff s4_def s3_def s2_eq)
  have S6: "sides s6 = (sides s4)(iB := map_option make_joint (sides s4 iB),
                                  iA := map_option make_joint (sides s4 iA))"
    by (simp add: s6_def s5_def)
  have S7: "sides s7 = (sides s6)
       (hd ?xs := map_option (\<lambda>r. r\<lparr>sending := Some (alice_to_bob R)\<rparr>) (sides s6 (hd ?xs)),
        last ?ys := map_option (\<lambda>r. r\<lparr>sending := Some (bob_to_alice L)\<rparr>) (sides s6 (last ?ys)))"
    using front_back by (simp add: s7_def)
  have m4: "map_option mutex (sides s4 q) = map_option mutex (sides s q)" for q
    by (cases "sides s q") (simp_all add: S4)
  have m6: "map_option mutex (sides s6 q) = map_option mutex (sides s q)" for q
    using m4 [of q] by (cases "sides s4 q") (auto simp add: S6 make_joint_def)
  have m7: "map_option mutex (sides s7 q) = map_option mutex (sides s q)" for q
    using m6 [of q] by (cases "sides s6 q") (auto simp add: S7)
  have hm7: "has_mutex s7 = has_mutex s"
  proof
    fix q show "has_mutex s7 q = has_mutex s q"
      by (rule has_mutex_cong) (rule m7)
  qed
  have held7: "held s7 = (\<lambda>q. if q \<in> set (?xs @ ?ys) \<and> has_mutex s q then 1 else 0)"
    by (simp add: s7_def s6_def s5_def s4_def s3_def s2_eq)
  define s8 where "s8 = s7\<lparr>held := (\<lambda>_. 0)\<rparr>"
  have unlock: "weld_unlock_all_sides s7 l = Inr s8"
  proof -
    have "(\<lambda>q. if q \<in> set (?xs @ ?ys) \<and> has_mutex s7 q then held s7 q - 1 else held s7 q) = (\<lambda>_. 0)"
      by (auto simp add: hm7 held7 fun_eq_iff)
    with unlock_sides_result [OF live7 dist] ch7 show ?thesis
      by (simp add: weld_unlock_all_sides_def get_chain_def s8_def)
  qed
  have run: "weld_chains s iB iA l r = Inr s8"
    using L R l1 l2 copy concat free upd_int upd_end unlock
    by (simp add: weld_chains_def get_chain_def s1_chains)
  have sides8: "sides s8 = (\<lambda>q. map_option (welded_side iB iA l L R q) (sides s q))"
  proof
    fix q
    show "sides s8 q = map_option (welded_side iB iA l L R q) (sides s q)"
    proof (cases "sides s q")
      case None
      then show ?thesis by (auto simp add: s8_def S7 S6 S4)
    next
      case (Some rec)
      consider (bk) "q = last ?ys" | (fr) "q = hd ?xs" "q \<noteq> last ?ys"
        | (ia) "q = iA" "q \<noteq> hd ?xs" "q \<noteq> last ?ys"
        | (ib) "q = iB" "q \<noteq> hd ?xs" "q \<noteq> last ?ys"
        | (other) "q \<noteq> iA" "q \<noteq> iB" "q \<noteq> hd ?xs" "q \<noteq> last ?ys"
        by blast
      then show ?thesis
      proof cases
        case bk
        with Some front_back iAB iA iB disj show ?thesis
          by (auto simp add: s8_def S7 S6 S4 welded_side_def make_joint_def)
      next
        case fr
        with Some front_back iAB iA iB disj show ?thesis
          by (auto simp add: s8_def S7 S6 S4 welded_side_def make_joint_def)
      next
        case ia
        with Some front_back iAB iA iB disj show ?thesis
          by (auto simp add: s8_def S7 S6 S4 welded_side_def make_joint_def)
      next
        case ib
        with Some front_back iAB iA iB disj show ?thesis
          by (auto simp add: s8_def S7 S6 S4 welded_side_def make_joint_def)
      next
        case other
        with Some front_back iAB iA iB disj show ?thesis
          by (auto simp add: s8_def S7 S6 S4 welded_side_def make_joint_def)
      qed
    qed
  qed
  have "s8 = s\<lparr>held := (\<lambda>_. 0),
           buffers := (buffers s)
             (alice_to_bob L := None, bob_to_alice R := None,
              alice_to_bob R \<mapsto> vra\<lparr>sb_bytes := sb_bytes vra @
                 take (furi_stream_buffer_spaces_available vra) (sb_bytes vla)\<rparr>,
              bob_to_alice L \<mapsto> vlb\<lparr>sb_bytes := sb_bytes vlb @
                 take (furi_stream_buffer_spaces_available vlb) (sb_bytes vrb)\<rparr>),
           chains := (chains s)
             (l \<mapsto> \<lparr>alice_to_bob = alice_to_bob R, bob_to_alice = bob_to_alice L,
                    pipe_sides = pipe_sides L @ pipe_sides R\<rparr>, r := None),
           sides := (\<lambda>q. map_option (welded_side iB iA l L R q) (sides s q))\<rparr>"
  proof -
    have b: "buffers s8 = (buffers s)
             (alice_to_bob L := None, bob_to_alice R := None,
              alice_to_bob R \<mapsto> vra\<lparr>sb_bytes := sb_bytes vra @
                 take (furi_stream_buffer_spaces_available vra) (sb_bytes vla)\<rparr>,
              bob_to_alice L \<mapsto> vlb\<lparr>sb_bytes := sb_bytes vlb @
                 take (furi_stream_buffer_spaces_available vlb) (sb_bytes vrb)\<rparr>)"
      using ne by (auto simp add: fun_eq_iff s8_def s7_def s6_def s5_def s4_def s3_def s2_eq)
    have c: "chains s8 = (chains s)
             (l \<mapsto> \<lparr>alice_to_bob = alice_to_bob R, bob_to_alice = bob_to_alice L,
                    pipe_sides = pipe_sides L @ pipe_sides R\<rparr>, r := None)"
      by (simp add: s8_def s7_def s6_def s5_def s4_def s3_def s2_eq)
    have h: "held s8 = (\<lambda>_. 0)" by (simp add: s8_def)
    have rest: "next_addr s8 = next_addr s" "thread_stdout s8 = thread_stdout s"
       "thread_stdin s8 = thread_stdin s"
      by (simp_all add: s8_def s7_def s6_def s5_def s4_def s3_def s2_eq)
    show ?thesis
      using b c h sides8 rest by (intro pipe_heap.equality) simp_all
  qed
  with run show ?thesis by simp
qed

lemmas inv_defs = sides_in_chains_def chains_own_sides_def chains_own_buffers_def
  chains_apart_def roles_at_ends_def locks_free_def addrs_fresh_def

lemma heap_inv_init: "heap_inv heap_init"
  by (simp add: heap_inv_def inv_defs heap_init_def)

lemma inv_sideD:
  assumes "heap_inv s" and "sides s p = Some r"
  shows "\<exists>c. chains s (chain r) = Some c \<and> p \<in> set (pipe_sides c)"
  using assms unfolding heap_inv_def sides_in_chains_def by blast

lemma inv_chainD:
  assumes "heap_inv s" and "chains s a = Some c"
  shows "distinct (pipe_sides c)"
    and "\<And>p. p \<in> set (pipe_sides c) \<Longrightarrow> \<exists>r. sides s p = Some r \<and> chain r = a"
    and "alice_to_bob c \<noteq> bob_to_alice c"
    and "\<exists>v. buffers s (alice_to_bob c) = Some v" and "\<exists>v. buffers s (bob_to_alice c) = Some v"
  using assms unfolding heap_inv_def chains_own_sides_def chains_own_buffers_def by auto

lemma inv_apartD:
  assumes "heap_inv s" and "chains s a = Some c" and "chains s a' = Some c'" and "a \<noteq> a'"
  shows "alice_to_bob c \<noteq> alice_to_bob c'" and "alice_to_bob c \<noteq> bob_to_alice c'"
    and "bob_to_alice c \<noteq> alice_to_bob c'" and "bob_to_alice c \<noteq> bob_to_alice c'"
    and "set (pipe_sides c) \<inter> set (pipe_sides c') = {}"
proof -
  from assms show "alice_to_bob c \<noteq> alice_to_bob c'" "alice_to_bob c \<noteq> bob_to_alice c'"
    "bob_to_alice c \<noteq> bob_to_alice c'"
    unfolding heap_inv_def chains_apart_def by blast+
  from assms have "alice_to_bob c' \<noteq> bob_to_alice c"
    unfolding heap_inv_def chains_apart_def by blast
  then show "bob_to_alice c \<noteq> alice_to_bob c'" by simp
  show "set (pipe_sides c) \<inter> set (pipe_sides c') = {}"
    using inv_chainD(2) [OF assms(1,2)] inv_chainD(2) [OF assms(1,3)] assms(4) by fastforce
qed

lemma inv_roleD:
  assumes "heap_inv s" and "sides s p = Some r" and "chains s (chain r) = Some c"
  shows "role r = FuriPipeRoleAlice \<Longrightarrow>
           p = hd (pipe_sides c) \<and> sending r = Some (alice_to_bob c) \<and> receiving r = Some (bob_to_alice c)"
    and "role r = FuriPipeRoleBob \<Longrightarrow>
           p = last (pipe_sides c) \<and> sending r = Some (bob_to_alice c) \<and> receiving r = Some (alice_to_bob c)"
  using assms unfolding heap_inv_def roles_at_ends_def by blast+

lemma inv_heldD: "heap_inv s \<Longrightarrow> held s p = 0"
  by (simp add: heap_inv_def locks_free_def)

lemma inv_held_fun: "heap_inv s \<Longrightarrow> held s = (\<lambda>_. 0)"
  by (simp add: fun_eq_iff inv_heldD)

lemma inv_freshD:
  assumes "heap_inv s" and "next_addr s \<le> a"
  shows "sides s a = None" and "chains s a = None" and "buffers s a = None"
  using assms unfolding heap_inv_def addrs_fresh_def by auto

text \<open>The invariant looks at the buffers only to see which are there.\<close>

lemma heap_inv_buffers_cong:
  assumes "heap_inv s" and "sides s' = sides s" and "chains s' = chains s"
    and "held s' = held s" and "next_addr s' = next_addr s"
    and "\<And>x. buffers s' x = None \<longleftrightarrow> buffers s x = None"
  shows "heap_inv s'"
proof -
  have "sides_in_chains s'" "chains_own_sides s'" "chains_apart s'" "roles_at_ends s'"
    using assms(1) unfolding heap_inv_def inv_defs assms(2,3) by blast+
  moreover have "chains_own_buffers s'"
    using assms(1) unfolding heap_inv_def inv_defs assms(3,6) by blast
  moreover have "locks_free s'" "addrs_fresh s'"
    using assms(1) unfolding heap_inv_def inv_defs assms(2,3,4,5,6) by blast+
  ultimately show ?thesis by (simp add: heap_inv_def)
qed

lemma furi_pipe_side_lock_result:
  assumes "sides s p = Some r" and "held s p = 0"
  shows "furi_pipe_side_lock s p = Inr (if mutex r = None then s else s\<lparr>held := (held s)(p := 1)\<rparr>)"
  using assms by (auto simp add: lock_defs)

lemma furi_pipe_send_result:
  assumes "sides s p = Some r" and "held s p = 0"
  shows "furi_pipe_send s (Some p) data timeout =
     (case sending r of None \<Rightarrow> Inr (0, s)
      | Some b \<Rightarrow> bindE (get_buffer s b) (\<lambda>v.
                  bindE (furi_stream_buffer_send v data timeout) (\<lambda>(n, v').
                  Inr (n, s\<lparr>buffers := (buffers s)(b \<mapsto> v')\<rparr>))))"
  using assms
  by (cases "mutex r"; cases "sending r")
     (auto simp add: furi_pipe_send_def lock_defs stream_send_def get_buffer_def fun_upd_idem
       bindE_def split: option.splits sum.splits)

lemma furi_pipe_receive_result:
  assumes "sides s p = Some r" and "held s p = 0"
  shows "furi_pipe_receive s (Some p) len timeout =
     (case receiving r of None \<Rightarrow> Inr ([], s)
      | Some b \<Rightarrow> bindE (get_buffer s b) (\<lambda>v.
                  bindE (furi_stream_buffer_receive v len timeout) (\<lambda>(out, v').
                  Inr (out, s\<lparr>buffers := (buffers s)(b \<mapsto> v')\<rparr>))))"
  using assms
  by (cases "mutex r"; cases "receiving r")
     (auto simp add: furi_pipe_receive_def lock_defs stream_receive_def get_buffer_def fun_upd_idem
       bindE_def split: option.splits sum.splits)

lemma furi_pipe_send_inv:
  assumes "heap_inv s" and "furi_pipe_send s pipe data timeout = Inr (n, s')"
  shows "heap_inv s'"
proof -
  from assms(2) obtain p where pipe: "pipe = Some p"
    by (cases pipe) (simp_all add: furi_pipe_send_def)
  from assms(2) pipe obtain r where r: "sides s p = Some r"
    by (cases "sides s p") (simp_all add: furi_pipe_send_def lock_defs)
  note res = furi_pipe_send_result [OF r inv_heldD [OF assms(1)], of data timeout]
  show ?thesis
  proof (cases "sending r")
    case None
    with res assms pipe show ?thesis by simp
  next
    case (Some b)
    with res assms(2) pipe obtain v v' where "buffers s b = Some v"
      and "s' = s\<lparr>buffers := (buffers s)(b \<mapsto> v')\<rparr>"
      by (auto simp add: get_buffer_def bindE_eq_Inr split: option.splits)
    with assms(1) show ?thesis
      by (intro heap_inv_buffers_cong [of s s']) auto
  qed
qed

lemma furi_pipe_receive_inv:
  assumes "heap_inv s" and "furi_pipe_receive s pipe len timeout = Inr (out, s')"
  shows "heap_inv s'"
proof -
  from assms(2) obtain p where pipe: "pipe = Some p"
    by (cases pipe) (simp_all add: furi_pipe_receive_def)
  from assms(2) pipe obtain r where r: "sides s p = Some r"
    by (cases "sides s p") (simp_all add: furi_pipe_receive_def lock_defs)
  note res = furi_pipe_receive_result [OF r inv_heldD [OF assms(1)], of len timeout]
  show ?thesis
  proof (cases "receiving r")
    case None
    with res assms pipe show ?thesis by simp
  next
    case (Some b)
    with res assms(2) pipe obtain v v' where "buffers s b = Some v"
      and "s' = s\<lparr>buffers := (buffers s)(b \<mapsto> v')\<rparr>"
      by (auto simp add: get_buffer_def bindE_eq_Inr split: option.splits)
    with assms(1) show ?thesis
      by (intro heap_inv_buffers_cong [of s s']) auto
  qed
qed

lemma furi_pipe_alloc_ex_inv:
  assumes inv: "heap_inv s"
  shows "heap_inv (snd (furi_pipe_alloc_ex s cap to_alice to_bob))"
proof -
  let ?n = "next_addr s"
  let ?s' = "snd (furi_pipe_alloc_ex s cap to_alice to_bob)"
  note fresh = inv_freshD [OF inv]
  have sd: "sides ?s' p = (if p = ?n + 3 \<or> p = ?n + 4 then sides ?s' p else sides s p)" for p
    by (simp add: furi_pipe_alloc_ex_def Let_def)
  have old_side: "sides s p = Some r \<Longrightarrow> p < ?n" for p r
    using fresh(1) [of p] by (cases "p < ?n") auto
  have old_chain: "chains s a = Some c \<Longrightarrow> a < ?n" for a c
    using fresh(2) [of a] by (cases "a < ?n") auto
  have old_buf: "buffers s a = Some v \<Longrightarrow> a < ?n" for a v
    using fresh(3) [of a] by (cases "a < ?n") auto
  have old_chain_bufs: "chains s a = Some c \<Longrightarrow> alice_to_bob c < ?n \<and> bob_to_alice c < ?n" for a c
    using inv_chainD(4,5) [OF inv, of a c] old_buf by blast
  have a: "sides_in_chains ?s'"
    unfolding sides_in_chains_def
  proof (intro allI impI)
    fix p r assume pr: "sides ?s' p = Some r"
    show "\<exists>c. chains ?s' (chain r) = Some c \<and> p \<in> set (pipe_sides c)"
    proof (cases "p = ?n + 3 \<or> p = ?n + 4")
      case True
      with pr show ?thesis by (auto simp add: furi_pipe_alloc_ex_def Let_def)
    next
      case False
      with pr have old: "sides s p = Some r" by (simp add: furi_pipe_alloc_ex_def Let_def)
      from inv_sideD [OF inv old] obtain c where c: "chains s (chain r) = Some c" "p \<in> set (pipe_sides c)" by blast
      from old_chain [OF c(1)] c show ?thesis by (simp add: furi_pipe_alloc_ex_def Let_def)
    qed
  qed
  have b: "chains_own_sides ?s'"
    unfolding chains_own_sides_def
  proof (intro allI impI)
    fix a c assume ac: "chains ?s' a = Some c"
    show "distinct (pipe_sides c) \<and> (\<forall>p\<in>set (pipe_sides c). \<exists>r. sides ?s' p = Some r \<and> chain r = a)"
    proof (cases "a = ?n + 2")
      case True
      with ac show ?thesis by (auto simp add: furi_pipe_alloc_ex_def Let_def)
    next
      case False
      with ac have old: "chains s a = Some c" by (simp add: furi_pipe_alloc_ex_def Let_def)
      have "\<exists>r. sides ?s' p = Some r \<and> chain r = a" if "p \<in> set (pipe_sides c)" for p
      proof -
        from inv_chainD(2) [OF inv old that] obtain r where r: "sides s p = Some r" "chain r = a" by blast
        from old_side [OF r(1)] r show ?thesis by (simp add: furi_pipe_alloc_ex_def Let_def)
      qed
      with inv_chainD(1) [OF inv old] show ?thesis by blast
    qed
  qed
  have c: "chains_own_buffers ?s'"
    unfolding chains_own_buffers_def
  proof (intro allI impI)
    fix a c assume ac: "chains ?s' a = Some c"
    show "alice_to_bob c \<noteq> bob_to_alice c \<and> buffers ?s' (alice_to_bob c) \<noteq> None
        \<and> buffers ?s' (bob_to_alice c) \<noteq> None"
    proof (cases "a = ?n + 2")
      case True
      with ac show ?thesis by (auto simp add: furi_pipe_alloc_ex_def Let_def)
    next
      case False
      with ac have old: "chains s a = Some c" by (simp add: furi_pipe_alloc_ex_def Let_def)
      from inv_chainD(3,4,5) [OF inv old] show ?thesis
        by (auto simp add: furi_pipe_alloc_ex_def Let_def)
    qed
  qed
  have d: "chains_apart ?s'"
    unfolding chains_apart_def
  proof (intro allI impI, elim conjE)
    fix a a' c c'
    assume ac: "chains ?s' a = Some c" and ac': "chains ?s' a' = Some c'" and ne: "a \<noteq> a'"
    consider (new1) "a = ?n + 2" "a' \<noteq> ?n + 2" | (new2) "a \<noteq> ?n + 2" "a' = ?n + 2"
      | (old) "a \<noteq> ?n + 2" "a' \<noteq> ?n + 2"
      using ne by blast
    then show "alice_to_bob c \<noteq> alice_to_bob c' \<and> alice_to_bob c \<noteq> bob_to_alice c'
        \<and> bob_to_alice c \<noteq> bob_to_alice c'"
    proof cases
      case new1
      with ac' have "chains s a' = Some c'" by (simp add: furi_pipe_alloc_ex_def Let_def)
      from old_chain_bufs [OF this] new1 ac show ?thesis
        by (auto simp add: furi_pipe_alloc_ex_def Let_def)
    next
      case new2
      with ac have "chains s a = Some c" by (simp add: furi_pipe_alloc_ex_def Let_def)
      from old_chain_bufs [OF this] new2 ac' show ?thesis
        by (auto simp add: furi_pipe_alloc_ex_def Let_def)
    next
      case old
      with ac ac' have "chains s a = Some c" "chains s a' = Some c'"
        by (simp_all add: furi_pipe_alloc_ex_def Let_def)
      from inv_apartD(1,2,4) [OF inv this ne] show ?thesis by simp
    qed
  qed
  have e: "roles_at_ends ?s'"
    unfolding roles_at_ends_def
  proof (intro allI impI, elim conjE)
    fix p r c assume pr: "sides ?s' p = Some r" and rc: "chains ?s' (chain r) = Some c"
    show "(role r = FuriPipeRoleAlice \<longrightarrow>
           p = hd (pipe_sides c) \<and> sending r = Some (alice_to_bob c) \<and> receiving r = Some (bob_to_alice c))
      \<and> (role r = FuriPipeRoleBob \<longrightarrow>
           p = last (pipe_sides c) \<and> sending r = Some (bob_to_alice c) \<and> receiving r = Some (alice_to_bob c))"
    proof (cases "p = ?n + 3 \<or> p = ?n + 4")
      case True
      with pr rc show ?thesis by (auto simp add: furi_pipe_alloc_ex_def Let_def)
    next
      case False
      with pr have old: "sides s p = Some r" by (simp add: furi_pipe_alloc_ex_def Let_def)
      from inv_sideD [OF inv old] obtain c0 where c0: "chains s (chain r) = Some c0" "p \<in> set (pipe_sides c0)" by blast
      from old_chain [OF c0(1)] rc c0 have "c = c0" by (simp add: furi_pipe_alloc_ex_def Let_def)
      with inv_roleD [OF inv old c0(1)] show ?thesis by blast
    qed
  qed
  have f: "locks_free ?s'"
    using inv by (simp add: heap_inv_def locks_free_def furi_pipe_alloc_ex_def Let_def)
  have g: "addrs_fresh ?s'"
    using inv by (simp add: heap_inv_def addrs_fresh_def furi_pipe_alloc_ex_def Let_def)
  from a b c d e f g show ?thesis by (simp add: heap_inv_def)
qed

lemma remove1_of_two:
  assumes "length xs = 2" and "distinct xs" and "e \<in> set xs" and "p \<in> set xs" and "p \<noteq> e"
  shows "remove1 e xs = [p]"
proof -
  from assms(1) obtain x y where xs: "xs = [x, y]"
    by (cases xs; cases "tl xs") auto
  with assms show ?thesis by auto
qed

lemma furi_pipe_free_result:
  assumes inv: "heap_inv s" and side: "sides s e = Some r" and ch: "chains s (chain r) = Some c"
  shows "furi_pipe_free s (Some e) =
    (if role r = FuriPipeRoleJoint then Inl Crash
     else if 2 < length (pipe_sides c) then Inl Crash
     else if length (pipe_sides c) = 1
     then Inr (s\<lparr>buffers := (buffers s)(alice_to_bob c := None, bob_to_alice c := None),
                chains := (chains s)(chain r := None),
                sides := (sides s)(e := None)\<rparr>)
     else Inr (s\<lparr>chains := (chains s)(chain r \<mapsto> c\<lparr>pipe_sides := remove1 e (pipe_sides c)\<rparr>),
                sides := (sides s)(e := None)\<rparr>))"
proof -
  note h0 = inv_heldD [OF inv, of e]
  from inv_sideD [OF inv side] ch have mem: "e \<in> set (pipe_sides c)" by auto
  then have len: "length (pipe_sides c) \<noteq> 0" by auto
  from inv_chainD(3,4,5) [OF inv ch] obtain va vb where
    bufs: "alice_to_bob c \<noteq> bob_to_alice c" "buffers s (alice_to_bob c) = Some va"
      "buffers s (bob_to_alice c) = Some vb" by blast
  note twist = fun_upd_twist [of "bob_to_alice c" "alice_to_bob c" "buffers s" None None]
  show ?thesis
  proof (cases "role r")
    case FuriPipeRoleAlice
    from inv_roleD(1) [OF inv side ch this]
    have sr: "sending r = Some (alice_to_bob c)" "receiving r = Some (bob_to_alice c)" by simp_all
    show ?thesis
      using FuriPipeRoleAlice side ch h0 mem len bufs sr
      by (cases "mutex r")
         (auto simp add: furi_pipe_free_def lock_defs stream_defs Let_def fun_upd_idem)
  next
    case FuriPipeRoleBob
    from inv_roleD(2) [OF inv side ch this]
    have sr: "sending r = Some (bob_to_alice c)" "receiving r = Some (alice_to_bob c)" by simp_all
    show ?thesis
      using FuriPipeRoleBob side ch h0 mem len bufs sr twist
      by (cases "mutex r")
         (auto simp add: furi_pipe_free_def lock_defs stream_defs Let_def fun_upd_idem)
  next
    case FuriPipeRoleJoint
    then show ?thesis
      using side h0
      by (cases "mutex r") (auto simp add: furi_pipe_free_def lock_defs)
  qed
qed

lemma furi_pipe_free_inv:
  assumes inv: "heap_inv s" and free: "furi_pipe_free s pipe = Inr s'"
  shows "heap_inv s'"
proof -
  from free obtain e where pipe: "pipe = Some e"
    by (cases pipe) (simp_all add: furi_pipe_free_def)
  from free pipe obtain r where side: "sides s e = Some r"
    by (cases "sides s e") (simp_all add: furi_pipe_free_def lock_defs)
  from inv_sideD [OF inv side] obtain c where ch: "chains s (chain r) = Some c"
    and mem: "e \<in> set (pipe_sides c)" by blast
  note res = furi_pipe_free_result [OF inv side ch]
  note cD = inv_chainD [OF inv ch]
  from free pipe res have nj: "role r \<noteq> FuriPipeRoleJoint" and le: "length (pipe_sides c) \<le> 2"
    by (auto split: if_splits)
  have other_chain: "chain rp \<noteq> chain r \<or> p \<in> set (pipe_sides c)"
    if "sides s p = Some rp" for p rp
    using inv_sideD [OF inv that] ch by auto
  show ?thesis
  proof (cases "length (pipe_sides c) = 1")
    case True
    with mem have only: "pipe_sides c = [e]" by (cases "pipe_sides c") auto
    from free pipe res nj True
    have s': "s' = s\<lparr>buffers := (buffers s)(alice_to_bob c := None, bob_to_alice c := None),
                chains := (chains s)(chain r := None), sides := (sides s)(e := None)\<rparr>"
      by simp
    have gone: "chain rp \<noteq> chain r" if "sides s p = Some rp" "p \<noteq> e" for p rp
      using other_chain [OF that(1)] that(2) only by auto
    have a: "sides_in_chains s'"
      unfolding sides_in_chains_def
    proof (intro allI impI)
      fix p rp assume "sides s' p = Some rp"
      then have p: "sides s p = Some rp" "p \<noteq> e" by (auto simp add: s' split: if_splits)
      from inv_sideD [OF inv p(1)] gone [OF p]
      show "\<exists>c. chains s' (chain rp) = Some c \<and> p \<in> set (pipe_sides c)"
        by (auto simp add: s')
    qed
    have b: "chains_own_sides s'"
      unfolding chains_own_sides_def
    proof (intro allI impI)
      fix a ca assume "chains s' a = Some ca"
      then have old: "chains s a = Some ca" "a \<noteq> chain r" by (auto simp add: s' split: if_splits)
      have "\<exists>rp. sides s' p = Some rp \<and> chain rp = a" if "p \<in> set (pipe_sides ca)" for p
        using inv_chainD(2) [OF inv old(1) that] old(2) side by (auto simp add: s')
      with inv_chainD(1) [OF inv old(1)]
      show "distinct (pipe_sides ca) \<and> (\<forall>p\<in>set (pipe_sides ca). \<exists>r. sides s' p = Some r \<and> chain r = a)"
        by blast
    qed
    have c: "chains_own_buffers s'"
      unfolding chains_own_buffers_def
    proof (intro allI impI)
      fix a ca assume "chains s' a = Some ca"
      then have old: "chains s a = Some ca" "a \<noteq> chain r" by (auto simp add: s' split: if_splits)
      from inv_chainD(3,4,5) [OF inv old(1)] inv_apartD(1,2,3,4) [OF inv old(1) ch old(2)]
      show "alice_to_bob ca \<noteq> bob_to_alice ca \<and> buffers s' (alice_to_bob ca) \<noteq> None
        \<and> buffers s' (bob_to_alice ca) \<noteq> None"
        by (auto simp add: s')
    qed
    have d: "chains_apart s'"
      unfolding chains_apart_def
    proof (intro allI impI, elim conjE)
      fix a a' ca ca'
      assume "chains s' a = Some ca" and "chains s' a' = Some ca'" and ne: "a \<noteq> a'"
      then have "chains s a = Some ca" "chains s a' = Some ca'"
        by (auto simp add: s' split: if_splits)
      from inv_apartD(1,2,4) [OF inv this ne]
      show "alice_to_bob ca \<noteq> alice_to_bob ca' \<and> alice_to_bob ca \<noteq> bob_to_alice ca'
        \<and> bob_to_alice ca \<noteq> bob_to_alice ca'" by simp
    qed
    have e: "roles_at_ends s'"
      unfolding roles_at_ends_def
    proof (intro allI impI, elim conjE)
      fix p rp ca assume "sides s' p = Some rp" and "chains s' (chain rp) = Some ca"
      then have "sides s p = Some rp" "chains s (chain rp) = Some ca"
        by (auto simp add: s' split: if_splits)
      from inv_roleD [OF inv this]
      show "(role rp = FuriPipeRoleAlice \<longrightarrow>
           p = hd (pipe_sides ca) \<and> sending rp = Some (alice_to_bob ca) \<and> receiving rp = Some (bob_to_alice ca))
      \<and> (role rp = FuriPipeRoleBob \<longrightarrow>
           p = last (pipe_sides ca) \<and> sending rp = Some (bob_to_alice ca) \<and> receiving rp = Some (alice_to_bob ca))"
        by blast
    qed
    have f: "locks_free s'" "addrs_fresh s'"
      using inv_heldD [OF inv] inv_freshD [OF inv] ch unfolding locks_free_def addrs_fresh_def
      by (auto simp add: s')
    from a b c d e f show ?thesis by (simp add: heap_inv_def)
  next
    case False
    with le mem have two: "length (pipe_sides c) = 2"
      by (cases "pipe_sides c") (auto simp add: le_Suc_eq)
    let ?c' = "c\<lparr>pipe_sides := remove1 e (pipe_sides c)\<rparr>"
    from free pipe res nj False two
    have s': "s' = s\<lparr>chains := (chains s)(chain r \<mapsto> ?c'), sides := (sides s)(e := None)\<rparr>"
      by simp
    have a: "sides_in_chains s'"
      unfolding sides_in_chains_def
    proof (intro allI impI)
      fix p rp assume "sides s' p = Some rp"
      then have p: "sides s p = Some rp" "p \<noteq> e" by (auto simp add: s' split: if_splits)
      from inv_sideD [OF inv p(1)] p(2) ch
      show "\<exists>c. chains s' (chain rp) = Some c \<and> p \<in> set (pipe_sides c)"
        by (auto simp add: s')
    qed
    have b: "chains_own_sides s'"
      unfolding chains_own_sides_def
    proof (intro allI impI)
      fix a ca assume aca: "chains s' a = Some ca"
      show "distinct (pipe_sides ca) \<and> (\<forall>p\<in>set (pipe_sides ca). \<exists>r. sides s' p = Some r \<and> chain r = a)"
      proof (cases "a = chain r")
        case True
        with aca have ca: "ca = ?c'" by (simp add: s')
        have "\<exists>rp. sides s' p = Some rp \<and> chain rp = a" if "p \<in> set (remove1 e (pipe_sides c))" for p
        proof -
          from that cD(1) have "p \<in> set (pipe_sides c)" "p \<noteq> e" by auto
          with cD(2) [of p] True show ?thesis by (auto simp add: s')
        qed
        with cD(1) ca show ?thesis by auto
      next
        case False
        with aca have old: "chains s a = Some ca" by (simp add: s')
        have "\<exists>rp. sides s' p = Some rp \<and> chain rp = a" if "p \<in> set (pipe_sides ca)" for p
          using inv_chainD(2) [OF inv old that] False side by (auto simp add: s')
        with inv_chainD(1) [OF inv old] show ?thesis by blast
      qed
    qed
    have same_bufs: "\<exists>c0. chains s a = Some c0 \<and> alice_to_bob c0 = alice_to_bob ca
        \<and> bob_to_alice c0 = bob_to_alice ca" if "chains s' a = Some ca" for a ca
      using that ch by (cases "a = chain r") (auto simp add: s')
    have c: "chains_own_buffers s'"
      unfolding chains_own_buffers_def
    proof (intro allI impI)
      fix a ca assume "chains s' a = Some ca"
      from same_bufs [OF this] obtain c0 where c0: "chains s a = Some c0"
        "alice_to_bob c0 = alice_to_bob ca" "bob_to_alice c0 = bob_to_alice ca" by blast
      from inv_chainD(3,4,5) [OF inv c0(1)] c0(2,3)
      show "alice_to_bob ca \<noteq> bob_to_alice ca \<and> buffers s' (alice_to_bob ca) \<noteq> None
        \<and> buffers s' (bob_to_alice ca) \<noteq> None"
        by (auto simp add: s')
    qed
    have d: "chains_apart s'"
      unfolding chains_apart_def
    proof (intro allI impI, elim conjE)
      fix a a' ca ca'
      assume 1: "chains s' a = Some ca" and 2: "chains s' a' = Some ca'" and ne: "a \<noteq> a'"
      from same_bufs [OF 1] obtain c0 where c0: "chains s a = Some c0"
        "alice_to_bob c0 = alice_to_bob ca" "bob_to_alice c0 = bob_to_alice ca" by blast
      from same_bufs [OF 2] obtain c1 where c1: "chains s a' = Some c1"
        "alice_to_bob c1 = alice_to_bob ca'" "bob_to_alice c1 = bob_to_alice ca'" by blast
      from inv_apartD(1,2,4) [OF inv c0(1) c1(1) ne] c0(2,3) c1(2,3)
      show "alice_to_bob ca \<noteq> alice_to_bob ca' \<and> alice_to_bob ca \<noteq> bob_to_alice ca'
        \<and> bob_to_alice ca \<noteq> bob_to_alice ca'" by simp
    qed
    have e: "roles_at_ends s'"
      unfolding roles_at_ends_def
    proof (intro allI impI, elim conjE)
      fix p rp ca assume "sides s' p = Some rp" and rc: "chains s' (chain rp) = Some ca"
      then have p: "sides s p = Some rp" "p \<noteq> e" by (auto simp add: s' split: if_splits)
      show "(role rp = FuriPipeRoleAlice \<longrightarrow>
           p = hd (pipe_sides ca) \<and> sending rp = Some (alice_to_bob ca) \<and> receiving rp = Some (bob_to_alice ca))
      \<and> (role rp = FuriPipeRoleBob \<longrightarrow>
           p = last (pipe_sides ca) \<and> sending rp = Some (bob_to_alice ca) \<and> receiving rp = Some (alice_to_bob ca))"
      proof (cases "chain rp = chain r")
        case True
        with rc have ca: "ca = ?c'" by (simp add: s')
        from other_chain [OF p(1)] True have "p \<in> set (pipe_sides c)" by simp
        from remove1_of_two [OF two cD(1) mem this p(2)]
        have one: "remove1 e (pipe_sides c) = [p]" .
        from inv_roleD [OF inv p(1)] True ch ca one show ?thesis by auto
      next
        case False
        with rc have "chains s (chain rp) = Some ca" by (simp add: s')
        from inv_roleD [OF inv p(1) this] show ?thesis by blast
      qed
    qed
    have f: "locks_free s'" "addrs_fresh s'"
      using inv_heldD [OF inv] inv_freshD [OF inv] ch unfolding locks_free_def addrs_fresh_def
      by (auto simp add: s')
    from a b c d e f show ?thesis by (simp add: heap_inv_def)
  qed
qed

lemma furi_pipe_weld_returns:
  assumes "furi_pipe_weld s a b = Inr s'"
  shows "\<exists>p1 p2 r1 r2. a = Some p1 \<and> b = Some p2 \<and> sides s p1 = Some r1 \<and> sides s p2 = Some r2
      \<and> mutex r1 \<noteq> None \<and> mutex r2 \<noteq> None
      \<and> role r1 \<noteq> FuriPipeRoleJoint \<and> role r2 \<noteq> FuriPipeRoleJoint \<and> role r1 \<noteq> role r2"
proof -
  from assms obtain p1 where a: "a = Some p1"
    by (cases a) (simp_all add: furi_pipe_weld_def)
  from assms a obtain p2 where b: "b = Some p2"
    by (cases b) (simp_all add: furi_pipe_weld_def)
  from assms a b obtain r1 where r1: "sides s p1 = Some r1"
    by (cases "sides s p1") (simp_all add: furi_pipe_weld_def get_side_def)
  from assms a b r1 have m1: "mutex r1 \<noteq> None"
    by (auto simp add: furi_pipe_weld_def get_side_def split: if_splits)
  from assms a b r1 m1 obtain r2 where r2: "sides s p2 = Some r2"
    by (cases "sides s p2") (simp_all add: furi_pipe_weld_def get_side_def)
  from assms a b r1 m1 r2 have m2: "mutex r2 \<noteq> None"
    by (auto simp add: furi_pipe_weld_def get_side_def split: if_splits)
  from assms a b r1 m1 r2 m2
  have "role r1 \<noteq> FuriPipeRoleJoint \<and> role r2 \<noteq> FuriPipeRoleJoint \<and> role r1 \<noteq> role r2"
    by (auto simp add: furi_pipe_weld_def get_side_def bindE_eq_Inr split: if_splits)
  with a b r1 r2 m1 m2 show ?thesis by blast
qed

lemma furi_pipe_weld_result:
  assumes inv: "heap_inv s"
    and sA: "sides s iA = Some rA" and sB: "sides s iB = Some rB"
    and roleA: "role rA = FuriPipeRoleAlice" and roleB: "role rB = FuriPipeRoleBob"
    and mA: "mutex rA \<noteq> None" and mB: "mutex rB \<noteq> None"
    and L: "chains s (chain rB) = Some L" and R: "chains s (chain rA) = Some R"
    and vla: "buffers s (alice_to_bob L) = Some vla" and vlb: "buffers s (bob_to_alice L) = Some vlb"
    and vra: "buffers s (alice_to_bob R) = Some vra" and vrb: "buffers s (bob_to_alice R) = Some vrb"
    and W: "W = s\<lparr>held := (\<lambda>_. 0),
           buffers := (buffers s)
             (alice_to_bob L := None, bob_to_alice R := None,
              alice_to_bob R \<mapsto> vra\<lparr>sb_bytes := sb_bytes vra @
                 take (furi_stream_buffer_spaces_available vra) (sb_bytes vla)\<rparr>,
              bob_to_alice L \<mapsto> vlb\<lparr>sb_bytes := sb_bytes vlb @
                 take (furi_stream_buffer_spaces_available vlb) (sb_bytes vrb)\<rparr>),
           chains := (chains s)
             (chain rB \<mapsto> \<lparr>alice_to_bob = alice_to_bob R, bob_to_alice = bob_to_alice L,
                    pipe_sides = pipe_sides L @ pipe_sides R\<rparr>, chain rA := None),
           sides := (\<lambda>q. map_option (welded_side iB iA (chain rB) L R q) (sides s q))\<rparr>"
  shows "furi_pipe_weld s (Some iA) (Some iB) = (if chain rA = chain rB then Inl Crash else Inr W)"
    and "furi_pipe_weld s (Some iB) (Some iA) = (if chain rA = chain rB then Inl Crash else Inr W)"
proof -
  have neAB: "iA \<noteq> iB" using sA sB roleA roleB by auto
  note h0 = inv_held_fun [OF inv]
  let ?s2 = "s\<lparr>held := (\<lambda>q. if q = iA \<or> q = iB then 1 else 0)\<rparr>"
  from mA mB obtain tA tB where tA: "mutex rA = Some tA" and tB: "mutex rB = Some tB" by auto
  have lockA: "furi_pipe_side_lock s iA = Inr (s\<lparr>held := (held s)(iA := 1)\<rparr>)"
    using sA tA h0 by (simp add: lock_defs)
  have lockB: "furi_pipe_side_lock s iB = Inr (s\<lparr>held := (held s)(iB := 1)\<rparr>)"
    using sB tB h0 by (simp add: lock_defs)
  have lockAB: "furi_pipe_side_lock (s\<lparr>held := (held s)(iA := 1)\<rparr>) iB = Inr ?s2"
  proof -
    have "(held s)(iA := Suc 0, iB := Suc 0) = (\<lambda>q. if q = iA \<or> q = iB then 1 else 0)"
      using h0 by (auto simp add: fun_eq_iff)
    then show ?thesis
      using sB tB neAB h0 by (simp add: lock_defs)
  qed
  have lockBA: "furi_pipe_side_lock (s\<lparr>held := (held s)(iB := 1)\<rparr>) iA = Inr ?s2"
  proof -
    have "(held s)(iB := Suc 0, iA := Suc 0) = (\<lambda>q. if q = iA \<or> q = iB then 1 else 0)"
      using h0 by (auto simp add: fun_eq_iff)
    then show ?thesis
      using sA tA neAB h0 by (simp add: lock_defs)
  qed
  have chains_result: "weld_chains ?s2 iB iA (chain rB) (chain rA) = Inr W" if ne: "chain rA \<noteq> chain rB"
  proof -
    have lr: "chain rB \<noteq> chain rA" using ne by simp
    note aD = inv_apartD [OF inv L R lr]
    have memB: "iB \<in> set (pipe_sides L)" and memA: "iA \<in> set (pipe_sides R)"
      using inv_sideD [OF inv sA] inv_sideD [OF inv sB] L R by auto
    have live: "\<forall>p\<in>set (pipe_sides L). sides ?s2 p \<noteq> None" "\<forall>p\<in>set (pipe_sides R). sides ?s2 p \<noteq> None"
      using inv_chainD(2) [OF inv L] inv_chainD(2) [OF inv R] by auto
    have dist: "distinct (pipe_sides L @ pipe_sides R)"
      using inv_chainD(1) [OF inv L] inv_chainD(1) [OF inv R] aD(5) by simp
    have hm: "has_mutex ?s2 iA" "has_mutex ?s2 iB"
      using sA sB mA mB by (simp_all add: has_mutex_def)
    have "weld_chains ?s2 iB iA (chain rB) (chain rA) =
      Inr (?s2\<lparr>held := (\<lambda>_. 0),
           buffers := (buffers ?s2)
             (alice_to_bob L := None, bob_to_alice R := None,
              alice_to_bob R \<mapsto> vra\<lparr>sb_bytes := sb_bytes vra @
                 take (furi_stream_buffer_spaces_available vra) (sb_bytes vla)\<rparr>,
              bob_to_alice L \<mapsto> vlb\<lparr>sb_bytes := sb_bytes vlb @
                 take (furi_stream_buffer_spaces_available vlb) (sb_bytes vrb)\<rparr>),
           chains := (chains ?s2)
             (chain rB \<mapsto> \<lparr>alice_to_bob = alice_to_bob R, bob_to_alice = bob_to_alice L,
                    pipe_sides = pipe_sides L @ pipe_sides R\<rparr>, chain rA := None),
           sides := (\<lambda>q. map_option (welded_side iB iA (chain rB) L R q) (sides ?s2 q))\<rparr>)"
      using L R lr vla vlb vra vrb inv_chainD(3) [OF inv L] aD(1,2,3,4) inv_chainD(3) [OF inv R]
        live dist memB memA hm
      by (intro weld_chains_result) simp_all
    then show ?thesis by (simp add: W)
  qed
  show "furi_pipe_weld s (Some iA) (Some iB) = (if chain rA = chain rB then Inl Crash else Inr W)"
    using sA sB tA tB roleA roleB lockA lockAB chains_result
    by (simp add: furi_pipe_weld_def get_side_def Let_def)
  show "furi_pipe_weld s (Some iB) (Some iA) = (if chain rA = chain rB then Inl Crash else Inr W)"
    using sA sB tA tB roleA roleB lockB lockBA chains_result
    by (simp add: furi_pipe_weld_def get_side_def Let_def)
qed

lemma welded_heap_inv:
  assumes inv: "heap_inv s"
    and sA: "sides s iA = Some rA" and sB: "sides s iB = Some rB"
    and roleA: "role rA = FuriPipeRoleAlice" and roleB: "role rB = FuriPipeRoleBob"
    and L: "chains s (chain rB) = Some L" and R: "chains s (chain rA) = Some R"
    and ne: "chain rA \<noteq> chain rB"
    and W: "W = s\<lparr>held := (\<lambda>_. 0),
           buffers := (buffers s)
             (alice_to_bob L := None, bob_to_alice R := None,
              alice_to_bob R \<mapsto> va, bob_to_alice L \<mapsto> vb),
           chains := (chains s)
             (chain rB \<mapsto> \<lparr>alice_to_bob = alice_to_bob R, bob_to_alice = bob_to_alice L,
                    pipe_sides = pipe_sides L @ pipe_sides R\<rparr>, chain rA := None),
           sides := (\<lambda>q. map_option (welded_side iB iA (chain rB) L R q) (sides s q))\<rparr>"
  shows "heap_inv W"
proof -
  let ?l = "chain rB" and ?r = "chain rA"
  let ?xs = "pipe_sides L" and ?ys = "pipe_sides R"
  let ?M = "\<lparr>alice_to_bob = alice_to_bob R, bob_to_alice = bob_to_alice L, pipe_sides = ?xs @ ?ys\<rparr>"
  have lr: "?l \<noteq> ?r" using ne by simp
  note LD = inv_chainD [OF inv L] and RD = inv_chainD [OF inv R]
  note aD = inv_apartD [OF inv L R lr]
  have memB: "iB \<in> set ?xs" and memA: "iA \<in> set ?ys"
    using inv_sideD [OF inv sA] inv_sideD [OF inv sB] L R by auto
  have lastB: "iB = last ?xs" using inv_roleD(2) [OF inv sB L roleB] by simp
  have hdA: "iA = hd ?ys" using inv_roleD(1) [OF inv sA R roleA] by simp
  have xs_ne: "?xs \<noteq> []" and ys_ne: "?ys \<noteq> []" using memA memB by auto
  have hd_xs: "hd ?xs \<in> set ?xs" and last_ys: "last ?ys \<in> set ?ys"
    using xs_ne ys_ne by simp_all
  have in_xs: "q \<in> set ?xs \<longleftrightarrow> chain rec = ?l" if "sides s q = Some rec" for q rec
    using LD(2) [of q] inv_sideD [OF inv that] that L by auto
  have in_ys: "q \<in> set ?ys \<longleftrightarrow> chain rec = ?r" if "sides s q = Some rec" for q rec
    using RD(2) [of q] inv_sideD [OF inv that] that R by auto
  have W_sides: "sides W q = map_option (welded_side iB iA ?l L R q) (sides s q)" for q
    by (simp add: W)
  have W_chains: "chains W a = (if a = ?r then None else if a = ?l then Some ?M else chains s a)" for a
    by (simp add: W)
  have W_buffers: "buffers W x = None \<longleftrightarrow> x = alice_to_bob L \<or> x = bob_to_alice R \<or> buffers s x = None" for x
    using LD(3,4,5) RD(3,4,5) aD(1,2,3,4) by (auto simp add: W)
  have W_chain_of: "chain (welded_side iB iA ?l L R q rec) = (if chain rec = ?r then ?l else chain rec)"
    if "sides s q = Some rec" for q rec
    using in_ys [OF that] by (simp add: welded_side_def)
  have a: "sides_in_chains W"
    unfolding sides_in_chains_def
  proof (intro allI impI)
    fix p rec' assume "sides W p = Some rec'"
    then obtain rec where rec: "sides s p = Some rec" and rec': "rec' = welded_side iB iA ?l L R p rec"
      by (auto simp add: W_sides)
    from inv_sideD [OF inv rec] obtain c where c: "chains s (chain rec) = Some c" "p \<in> set (pipe_sides c)"
      by blast
    show "\<exists>c. chains W (chain rec') = Some c \<and> p \<in> set (pipe_sides c)"
      using c in_xs [OF rec] in_ys [OF rec] L lr
      by (auto simp add: rec' W_chain_of [OF rec] W_chains)
  qed
  have b: "chains_own_sides W"
    unfolding chains_own_sides_def
  proof (intro allI impI)
    fix a c assume ac: "chains W a = Some c"
    show "distinct (pipe_sides c) \<and> (\<forall>p\<in>set (pipe_sides c). \<exists>r. sides W p = Some r \<and> chain r = a)"
    proof (cases "a = ?l")
      case True
      with ac lr have c: "c = ?M" by (simp add: W_chains)
      have "\<exists>r. sides W p = Some r \<and> chain r = a" if "p \<in> set (?xs @ ?ys)" for p
      proof -
        from that LD(2) [of p] RD(2) [of p] obtain rec where rec: "sides s p = Some rec"
          and "chain rec = ?l \<or> chain rec = ?r" by auto
        with True show ?thesis by (auto simp add: W_sides W_chain_of [OF rec])
      qed
      with LD(1) RD(1) aD(5) c show ?thesis by auto
    next
      case False
      with ac have old: "chains s a = Some c" and ar: "a \<noteq> ?r"
        by (auto simp add: W_chains split: if_splits)
      have "\<exists>r. sides W p = Some r \<and> chain r = a" if "p \<in> set (pipe_sides c)" for p
      proof -
        from inv_chainD(2) [OF inv old that] obtain rec where rec: "sides s p = Some rec" "chain rec = a"
          by blast
        with ar show ?thesis by (auto simp add: W_sides W_chain_of [OF rec(1)])
      qed
      with inv_chainD(1) [OF inv old] show ?thesis by blast
    qed
  qed
  have old_bufs: "alice_to_bob c \<noteq> alice_to_bob L \<and> alice_to_bob c \<noteq> bob_to_alice L
      \<and> bob_to_alice c \<noteq> alice_to_bob L \<and> bob_to_alice c \<noteq> bob_to_alice L
      \<and> alice_to_bob c \<noteq> alice_to_bob R \<and> alice_to_bob c \<noteq> bob_to_alice R
      \<and> bob_to_alice c \<noteq> alice_to_bob R \<and> bob_to_alice c \<noteq> bob_to_alice R"
    if "chains s a = Some c" "a \<noteq> ?l" "a \<noteq> ?r" for a c
    using inv_apartD(1,2,3,4) [OF inv that(1) L that(2)] inv_apartD(1,2,3,4) [OF inv that(1) R that(3)]
    by simp
  have c: "chains_own_buffers W"
    unfolding chains_own_buffers_def
  proof (intro allI impI)
    fix a c assume ac: "chains W a = Some c"
    show "alice_to_bob c \<noteq> bob_to_alice c \<and> buffers W (alice_to_bob c) \<noteq> None
        \<and> buffers W (bob_to_alice c) \<noteq> None"
    proof (cases "a = ?l")
      case True
      with ac lr have c: "c = ?M" by (simp add: W_chains)
      show ?thesis using aD(3) by (auto simp add: c W)
    next
      case False
      with ac have old: "chains s a = Some c" and ar: "a \<noteq> ?r"
        by (auto simp add: W_chains split: if_splits)
      from old_bufs [OF old False ar] inv_chainD(3,4,5) [OF inv old]
      show ?thesis by (auto simp add: W_buffers)
    qed
  qed
  have d: "chains_apart W"
    unfolding chains_apart_def
  proof (intro allI impI, elim conjE)
    fix a a' c c'
    assume 1: "chains W a = Some c" and 2: "chains W a' = Some c'" and neq: "a \<noteq> a'"
    from 1 2 have nr: "a \<noteq> ?r" "a' \<noteq> ?r" by (auto simp add: W_chains split: if_splits)
    consider (left) "a = ?l" "a' \<noteq> ?l" | (right) "a \<noteq> ?l" "a' = ?l" | (old) "a \<noteq> ?l" "a' \<noteq> ?l"
      using neq by blast
    then show "alice_to_bob c \<noteq> alice_to_bob c' \<and> alice_to_bob c \<noteq> bob_to_alice c'
        \<and> bob_to_alice c \<noteq> bob_to_alice c'"
    proof cases
      case left
      with 1 2 nr have "c = ?M" "chains s a' = Some c'" by (simp_all add: W_chains)
      with old_bufs [OF this(2) left(2) nr(2)] show ?thesis by auto
    next
      case right
      with 1 2 nr have "c' = ?M" "chains s a = Some c" by (simp_all add: W_chains)
      with old_bufs [OF this(2) right(1) nr(1)] show ?thesis by auto
    next
      case old
      with 1 2 nr have "chains s a = Some c" "chains s a' = Some c'" by (simp_all add: W_chains)
      from inv_apartD(1,2,4) [OF inv this neq] show ?thesis by simp
    qed
  qed
  have e: "roles_at_ends W"
    unfolding roles_at_ends_def
  proof (intro allI impI, elim conjE)
    fix p rec' c assume "sides W p = Some rec'" and rc: "chains W (chain rec') = Some c"
    then obtain rec where rec: "sides s p = Some rec" and rec': "rec' = welded_side iB iA ?l L R p rec"
      by (auto simp add: W_sides)
    from inv_sideD [OF inv rec] obtain c0 where c0: "chains s (chain rec) = Some c0" "p \<in> set (pipe_sides c0)"
      by blast
    note rD = inv_roleD [OF inv rec c0(1)]
    have role': "role rec' = (if p = iA \<or> p = iB then FuriPipeRoleJoint else role rec)"
      by (simp add: rec' welded_side_def)
    have alice: "p = hd (pipe_sides c) \<and> sending rec' = Some (alice_to_bob c)
        \<and> receiving rec' = Some (bob_to_alice c)" if al: "role rec' = FuriPipeRoleAlice"
    proof -
      from al role' have pne: "p \<noteq> iA" "p \<noteq> iB" and ra: "role rec = FuriPipeRoleAlice"
        by (auto split: if_splits)
      note f = rD(1) [OF ra]
      have not_r: "chain rec \<noteq> ?r"
      proof
        assume "chain rec = ?r"
        with c0 R f hdA pne show False by simp
      qed
      show ?thesis
      proof (cases "chain rec = ?l")
        case True
        with c0 L have "c0 = L" by simp
        with f have p: "p = hd ?xs" "sending rec = Some (alice_to_bob L)" "receiving rec = Some (bob_to_alice L)"
          by simp_all
        with hd_xs last_ys aD(5) have "p \<noteq> last ?ys" by auto
        moreover from rc True lr have "c = ?M" by (simp add: rec' W_chain_of [OF rec] W_chains)
        ultimately show ?thesis
          using p pne xs_ne by (simp add: rec' welded_side_def)
      next
        case False
        with in_xs [OF rec] in_ys [OF rec] not_r hd_xs last_ys
        have "p \<noteq> hd ?xs" "p \<noteq> last ?ys" by auto
        moreover from rc False not_r c0 have "c = c0" by (simp add: rec' W_chain_of [OF rec] W_chains)
        ultimately show ?thesis
          using f pne by (simp add: rec' welded_side_def)
      qed
    qed
    have bob: "p = last (pipe_sides c) \<and> sending rec' = Some (bob_to_alice c)
        \<and> receiving rec' = Some (alice_to_bob c)" if bo: "role rec' = FuriPipeRoleBob"
    proof -
      from bo role' have pne: "p \<noteq> iA" "p \<noteq> iB" and rb: "role rec = FuriPipeRoleBob"
        by (auto split: if_splits)
      note f = rD(2) [OF rb]
      have not_l: "chain rec \<noteq> ?l"
      proof
        assume "chain rec = ?l"
        with c0 L f lastB pne show False by simp
      qed
      show ?thesis
      proof (cases "chain rec = ?r")
        case True
        with c0 R have "c0 = R" by simp
        with f have p: "p = last ?ys" "sending rec = Some (bob_to_alice R)" "receiving rec = Some (alice_to_bob R)"
          by simp_all
        moreover from rc True lr have "c = ?M" by (simp add: rec' W_chain_of [OF rec] W_chains)
        ultimately show ?thesis
          using pne ys_ne by (simp add: rec' welded_side_def)
      next
        case False
        with in_xs [OF rec] in_ys [OF rec] not_l hd_xs last_ys
        have "p \<noteq> hd ?xs" "p \<noteq> last ?ys" by auto
        moreover from rc False not_l c0 have "c = c0" by (simp add: rec' W_chain_of [OF rec] W_chains)
        ultimately show ?thesis
          using f pne by (simp add: rec' welded_side_def)
      qed
    qed
    from alice bob
    show "(role rec' = FuriPipeRoleAlice \<longrightarrow>
           p = hd (pipe_sides c) \<and> sending rec' = Some (alice_to_bob c) \<and> receiving rec' = Some (bob_to_alice c))
      \<and> (role rec' = FuriPipeRoleBob \<longrightarrow>
           p = last (pipe_sides c) \<and> sending rec' = Some (bob_to_alice c) \<and> receiving rec' = Some (alice_to_bob c))"
      by blast
  qed
  have f: "locks_free W"
    by (simp add: locks_free_def W)
  have g: "addrs_fresh W"
    unfolding addrs_fresh_def
  proof (intro allI impI)
    fix x assume x: "next_addr W \<le> x"
    then have "next_addr s \<le> x" by (simp add: W)
    note fr = inv_freshD [OF inv this]
    from fr(2) L have "x \<noteq> ?l" by auto
    with fr show "sides W x = None \<and> chains W x = None \<and> buffers W x = None"
      by (simp add: W_sides W_chains W_buffers)
  qed
  from a b c d e f g show ?thesis by (simp add: heap_inv_def)
qed

lemma furi_pipe_weld_inv:
  assumes inv: "heap_inv s" and weld: "furi_pipe_weld s a b = Inr s'"
  shows "heap_inv s'"
proof -
  from furi_pipe_weld_returns [OF weld] obtain p1 p2 r1 r2 where
    ab: "a = Some p1" "b = Some p2" and s1: "sides s p1 = Some r1" and s2: "sides s p2 = Some r2"
    and m: "mutex r1 \<noteq> None" "mutex r2 \<noteq> None"
    and roles: "role r1 \<noteq> FuriPipeRoleJoint" "role r2 \<noteq> FuriPipeRoleJoint" "role r1 \<noteq> role r2"
    by blast
  have main: "heap_inv s'"
    if sA: "sides s iA = Some rA" and sB: "sides s iB = Some rB"
      and roleA: "role rA = FuriPipeRoleAlice" and roleB: "role rB = FuriPipeRoleBob"
      and mA: "mutex rA \<noteq> None" and mB: "mutex rB \<noteq> None"
      and w: "furi_pipe_weld s (Some iA) (Some iB) = Inr s' \<or> furi_pipe_weld s (Some iB) (Some iA) = Inr s'"
    for iA iB rA rB
  proof -
    from inv_sideD [OF inv sB] obtain L where L: "chains s (chain rB) = Some L" by blast
    from inv_sideD [OF inv sA] obtain R where R: "chains s (chain rA) = Some R" by blast
    from inv_chainD(4,5) [OF inv L] obtain vla vlb where
      vl: "buffers s (alice_to_bob L) = Some vla" "buffers s (bob_to_alice L) = Some vlb" by blast
    from inv_chainD(4,5) [OF inv R] obtain vra vrb where
      vr: "buffers s (alice_to_bob R) = Some vra" "buffers s (bob_to_alice R) = Some vrb" by blast
    note res = furi_pipe_weld_result [OF inv sA sB roleA roleB mA mB L R vl vr refl]
    from w res have ne: "chain rA \<noteq> chain rB" by (auto split: if_splits)
    with w res have s': "s' = s\<lparr>held := (\<lambda>_. 0),
           buffers := (buffers s)
             (alice_to_bob L := None, bob_to_alice R := None,
              alice_to_bob R \<mapsto> vra\<lparr>sb_bytes := sb_bytes vra @
                 take (furi_stream_buffer_spaces_available vra) (sb_bytes vla)\<rparr>,
              bob_to_alice L \<mapsto> vlb\<lparr>sb_bytes := sb_bytes vlb @
                 take (furi_stream_buffer_spaces_available vlb) (sb_bytes vrb)\<rparr>),
           chains := (chains s)
             (chain rB \<mapsto> \<lparr>alice_to_bob = alice_to_bob R, bob_to_alice = bob_to_alice L,
                    pipe_sides = pipe_sides L @ pipe_sides R\<rparr>, chain rA := None),
           sides := (\<lambda>q. map_option (welded_side iB iA (chain rB) L R q) (sides s q))\<rparr>"
      by auto
    show ?thesis by (rule welded_heap_inv [OF inv sA sB roleA roleB L R ne s'])
  qed
  show ?thesis
  proof (cases "role r1")
    case FuriPipeRoleAlice
    with roles have "role r2 = FuriPipeRoleBob" by (cases "role r2") auto
    from main [OF s1 s2 FuriPipeRoleAlice this m] weld ab show ?thesis by simp
  next
    case FuriPipeRoleBob
    with roles have "role r2 = FuriPipeRoleAlice" by (cases "role r2") auto
    from main [OF s2 s1 this FuriPipeRoleBob m(2,1)] weld ab show ?thesis by simp
  next
    case FuriPipeRoleJoint
    with roles show ?thesis by simp
  qed
qed

lemma exec_op_inv:
  assumes "heap_inv s" and "exec_op op s = Inr s'"
  shows "heap_inv s'"
proof (cases op)
  case (OpAlloc cap trig)
  with assms furi_pipe_alloc_ex_inv [OF assms(1)] show ?thesis
    by (auto simp add: furi_pipe_alloc_def Let_def)
next
  case (OpAllocEx cap to_alice to_bob)
  with assms furi_pipe_alloc_ex_inv [OF assms(1)] show ?thesis by auto
next
  case (OpSend pipe data timeout)
  with assms furi_pipe_send_inv [OF assms(1)] show ?thesis
    by (auto simp add: bindE_eq_Inr)
next
  case (OpReceive pipe len timeout)
  with assms furi_pipe_receive_inv [OF assms(1)] show ?thesis
    by (auto simp add: bindE_eq_Inr)
next
  case (OpFree pipe)
  with assms furi_pipe_free_inv [OF assms(1)] show ?thesis by auto
next
  case (OpWeld side_1 side_2)
  with assms furi_pipe_weld_inv [OF assms(1)] show ?thesis by auto
qed

lemma run_inv:
  assumes "heap_inv s" and "run ops s = Inr s'"
  shows "heap_inv s'"
  using assms
proof (induction ops arbitrary: s)
  case Nil
  then show ?case by simp
next
  case (Cons op ops)
  from Cons.prems(2) obtain s1 where s1: "exec_op op s = Inr s1" and rest: "run ops s1 = Inr s'"
    by (auto simp add: bindE_eq_Inr)
  from exec_op_inv [OF Cons.prems(1) s1] rest show ?case by (rule Cons.IH)
qed

lemma reachable_inv: "run ops heap_init = Inr s \<Longrightarrow> heap_inv s"
  using heap_inv_init by (rule run_inv)

lemma furi_pipe_weld_shape:
  assumes inv: "heap_inv s" and weld: "furi_pipe_weld s (Some p1) (Some p2) = Inr s'"
  obtains iA iB rA rB L R vla vlb vra vrb where
    "(p1 = iA \<and> p2 = iB) \<or> (p1 = iB \<and> p2 = iA)"
    "sides s iA = Some rA" "sides s iB = Some rB"
    "role rA = FuriPipeRoleAlice" "role rB = FuriPipeRoleBob"
    "mutex rA \<noteq> None" "mutex rB \<noteq> None"
    "chains s (chain rB) = Some L" "chains s (chain rA) = Some R" "chain rA \<noteq> chain rB"
    "buffers s (alice_to_bob L) = Some vla" "buffers s (bob_to_alice L) = Some vlb"
    "buffers s (alice_to_bob R) = Some vra" "buffers s (bob_to_alice R) = Some vrb"
    "s' = welded_heap s iB iA rB rA L R vla vlb vra vrb"
proof -
  note found = that
  from furi_pipe_weld_returns [OF weld] obtain r1 r2 where
    s1: "sides s p1 = Some r1" and s2: "sides s p2 = Some r2"
    and m: "mutex r1 \<noteq> None" "mutex r2 \<noteq> None"
    and roles: "role r1 \<noteq> FuriPipeRoleJoint" "role r2 \<noteq> FuriPipeRoleJoint" "role r1 \<noteq> role r2"
    by auto
  have main: thesis
    if sA: "sides s iA = Some rA" and sB: "sides s iB = Some rB"
      and roleA: "role rA = FuriPipeRoleAlice" and roleB: "role rB = FuriPipeRoleBob"
      and mA: "mutex rA \<noteq> None" and mB: "mutex rB \<noteq> None"
      and ps: "(p1 = iA \<and> p2 = iB) \<or> (p1 = iB \<and> p2 = iA)"
    for iA iB rA rB
  proof -
    from inv_sideD [OF inv sB] obtain L where L: "chains s (chain rB) = Some L" by blast
    from inv_sideD [OF inv sA] obtain R where R: "chains s (chain rA) = Some R" by blast
    from inv_chainD(4,5) [OF inv L] obtain vla vlb where
      vl: "buffers s (alice_to_bob L) = Some vla" "buffers s (bob_to_alice L) = Some vlb" by blast
    from inv_chainD(4,5) [OF inv R] obtain vra vrb where
      vr: "buffers s (alice_to_bob R) = Some vra" "buffers s (bob_to_alice R) = Some vrb" by blast
    note res = furi_pipe_weld_result [OF inv sA sB roleA roleB mA mB L R vl vr refl]
    have neAB: "iA \<noteq> iB" using sA sB roleA roleB by auto
    from weld ps neAB
    have w: "furi_pipe_weld s (Some iA) (Some iB) = Inr s' \<or> furi_pipe_weld s (Some iB) (Some iA) = Inr s'"
      by auto
    with res have ne: "chain rA \<noteq> chain rB" by (auto split: if_splits)
    with w res have "s' = welded_heap s iB iA rB rA L R vla vlb vra vrb"
      by (auto simp add: welded_heap_def)
    from found [OF ps sA sB roleA roleB mA mB L R ne vl vr this] show thesis .
  qed
  show thesis
  proof (cases "role r1")
    case FuriPipeRoleAlice
    with roles have "role r2 = FuriPipeRoleBob" by (cases "role r2") auto
    from main [OF s1 s2 FuriPipeRoleAlice this m] show thesis by simp
  next
    case FuriPipeRoleBob
    with roles have "role r2 = FuriPipeRoleAlice" by (cases "role r2") auto
    from main [OF s2 s1 this FuriPipeRoleBob m(2,1)] show thesis by simp
  next
    case FuriPipeRoleJoint
    with roles show thesis by simp
  qed
qed

section \<open>What a call does to the ends of a chain\<close>

text \<open>
  A call that returns either leaves the chains and the sides as they are (send and
  receive), or is an allocation, a free or a weld. For each of them: what becomes of the
  chains, and of the roles and mutexes of their sides.
\<close>

lemma furi_pipe_send_keeps:
  assumes "heap_inv s" and "furi_pipe_send s pipe data timeout = Inr (n, s')"
  shows "sides s' = sides s" and "chains s' = chains s"
proof -
  from assms(2) obtain p where pipe: "pipe = Some p"
    by (cases pipe) (simp_all add: furi_pipe_send_def)
  from assms(2) pipe obtain r where r: "sides s p = Some r"
    by (cases "sides s p") (simp_all add: furi_pipe_send_def lock_defs)
  note res = furi_pipe_send_result [OF r inv_heldD [OF assms(1)], of data timeout]
  have "sides s' = sides s \<and> chains s' = chains s"
  proof (cases "sending r")
    case None
    with res assms pipe show ?thesis by simp
  next
    case (Some b)
    with res assms(2) pipe obtain v v' where "buffers s b = Some v"
      and "s' = s\<lparr>buffers := (buffers s)(b \<mapsto> v')\<rparr>"
      by (auto simp add: get_buffer_def bindE_eq_Inr split: option.splits)
    then show ?thesis by simp
  qed
  then show "sides s' = sides s" and "chains s' = chains s" by simp_all
qed

lemma furi_pipe_receive_keeps:
  assumes "heap_inv s" and "furi_pipe_receive s pipe len timeout = Inr (out, s')"
  shows "sides s' = sides s" and "chains s' = chains s"
proof -
  from assms(2) obtain p where pipe: "pipe = Some p"
    by (cases pipe) (simp_all add: furi_pipe_receive_def)
  from assms(2) pipe obtain r where r: "sides s p = Some r"
    by (cases "sides s p") (simp_all add: furi_pipe_receive_def lock_defs)
  note res = furi_pipe_receive_result [OF r inv_heldD [OF assms(1)], of len timeout]
  have "sides s' = sides s \<and> chains s' = chains s"
  proof (cases "receiving r")
    case None
    with res assms pipe show ?thesis by simp
  next
    case (Some b)
    with res assms(2) pipe obtain v v' where "buffers s b = Some v"
      and "s' = s\<lparr>buffers := (buffers s)(b \<mapsto> v')\<rparr>"
      by (auto simp add: get_buffer_def bindE_eq_Inr split: option.splits)
    then show ?thesis by simp
  qed
  then show "sides s' = sides s" and "chains s' = chains s" by simp_all
qed

lemma furi_pipe_alloc_ex_shape:
  fixes s :: pipe_heap
  defines "n \<equiv> next_addr s"
  assumes s': "s' = snd (furi_pipe_alloc_ex s cap to_alice to_bob)"
  shows "chains s' = (chains s)(n + 2 \<mapsto>
           \<lparr>alice_to_bob = n, bob_to_alice = n + 1, pipe_sides = [n + 3, n + 4]\<rparr>)"
    and "map_option role (sides s' (n + 3)) = Some FuriPipeRoleAlice"
    and "map_option role (sides s' (n + 4)) = Some FuriPipeRoleBob"
    and "has_mutex s' (n + 3) = has_mutex s' (n + 4)"
    and "\<And>q. q \<noteq> n + 3 \<Longrightarrow> q \<noteq> n + 4 \<Longrightarrow> sides s' q = sides s q"
  unfolding s' n_def by (simp_all add: furi_pipe_alloc_ex_def Let_def has_mutex_def)

lemma furi_pipe_free_shape:
  assumes inv: "heap_inv s" and free: "furi_pipe_free s pipe = Inr s'"
  shows "\<exists>e r c. pipe = Some e \<and> sides s e = Some r \<and> role r \<noteq> FuriPipeRoleJoint
      \<and> chains s (chain r) = Some c \<and> e \<in> set (pipe_sides c)
      \<and> sides s' = (sides s)(e := None)
      \<and> (pipe_sides c = [e] \<and> chains s' = (chains s)(chain r := None)
         \<or> (\<exists>p. p \<noteq> e \<and> (pipe_sides c = [e, p] \<or> pipe_sides c = [p, e])
              \<and> chains s' = (chains s)(chain r \<mapsto> c\<lparr>pipe_sides := [p]\<rparr>)))"
proof -
  from free obtain e where pipe: "pipe = Some e"
    by (cases pipe) (simp_all add: furi_pipe_free_def)
  from free pipe obtain r where side: "sides s e = Some r"
    by (cases "sides s e") (simp_all add: furi_pipe_free_def lock_defs)
  from inv_sideD [OF inv side] obtain c where ch: "chains s (chain r) = Some c"
    and mem: "e \<in> set (pipe_sides c)" by blast
  note res = furi_pipe_free_result [OF inv side ch]
  note cD = inv_chainD [OF inv ch]
  from free pipe res have nj: "role r \<noteq> FuriPipeRoleJoint" and le: "length (pipe_sides c) \<le> 2"
    by (auto split: if_splits)
  show ?thesis
  proof (cases "length (pipe_sides c) = 1")
    case True
    with mem have only: "pipe_sides c = [e]" by (cases "pipe_sides c") auto
    from free pipe res nj True
    have "s' = s\<lparr>buffers := (buffers s)(alice_to_bob c := None, bob_to_alice c := None),
                chains := (chains s)(chain r := None), sides := (sides s)(e := None)\<rparr>"
      by simp
    then have "sides s' = (sides s)(e := None)" "chains s' = (chains s)(chain r := None)"
      by simp_all
    with pipe side nj ch mem only show ?thesis by blast
  next
    case False
    from mem have "length (pipe_sides c) \<noteq> 0" by auto
    with le False have "length (pipe_sides c) = 2" by arith
    then obtain x y where xy: "pipe_sides c = [x, y]"
      by (cases "pipe_sides c"; cases "tl (pipe_sides c)") auto
    from cD(1) xy have ne: "x \<noteq> y" by simp
    from free pipe res nj False le
    have s': "s' = s\<lparr>chains := (chains s)(chain r \<mapsto> c\<lparr>pipe_sides := remove1 e (pipe_sides c)\<rparr>),
                sides := (sides s)(e := None)\<rparr>"
      by (simp split: if_splits)
    have sd: "sides s' = (sides s)(e := None)" by (simp add: s')
    from mem xy have "e = x \<or> e = y" by simp
    then have "\<exists>p. p \<noteq> e \<and> (pipe_sides c = [e, p] \<or> pipe_sides c = [p, e])
              \<and> chains s' = (chains s)(chain r \<mapsto> c\<lparr>pipe_sides := [p]\<rparr>)"
    proof
      assume "e = x"
      with xy ne s' show ?thesis by (intro exI [of _ y]) simp
    next
      assume "e = y"
      with xy ne s' show ?thesis by (intro exI [of _ x]) simp
    qed
    with pipe side nj ch mem sd show ?thesis by blast
  qed
qed


lemma furi_pipe_weld_ends:
  assumes inv: "heap_inv s" and weld: "furi_pipe_weld s side_1 side_2 = Inr s'"
  shows "\<exists>iA iB rA rB L R M.
      ((side_1 = Some iA \<and> side_2 = Some iB) \<or> (side_1 = Some iB \<and> side_2 = Some iA))
    \<and> sides s iA = Some rA \<and> sides s iB = Some rB
    \<and> role rA = FuriPipeRoleAlice \<and> role rB = FuriPipeRoleBob
    \<and> has_mutex s iA \<and> has_mutex s iB
    \<and> chains s (chain rB) = Some L \<and> chains s (chain rA) = Some R \<and> chain rA \<noteq> chain rB
    \<and> iB \<in> set (pipe_sides L) \<and> iA \<in> set (pipe_sides R)
    \<and> chains s' = (chains s)(chain rB \<mapsto> M, chain rA := None)
    \<and> pipe_sides M = pipe_sides L @ pipe_sides R
    \<and> (\<forall>q. map_option role (sides s' q) =
           map_option (\<lambda>rec. if q = iA \<or> q = iB then FuriPipeRoleJoint else role rec) (sides s q))
    \<and> (\<forall>q. has_mutex s' q = has_mutex s q)"
proof -
  from furi_pipe_weld_returns [OF weld] obtain p1 p2 where
    args: "side_1 = Some p1" "side_2 = Some p2" by blast
  from weld args have weld': "furi_pipe_weld s (Some p1) (Some p2) = Inr s'" by simp
  obtain iA iB rA rB L R vla vlb vra vrb where
    ps: "(p1 = iA \<and> p2 = iB) \<or> (p1 = iB \<and> p2 = iA)"
    and sA: "sides s iA = Some rA" and sB: "sides s iB = Some rB"
    and roles: "role rA = FuriPipeRoleAlice" "role rB = FuriPipeRoleBob"
    and mx: "mutex rA \<noteq> None" "mutex rB \<noteq> None"
    and L: "chains s (chain rB) = Some L" and R: "chains s (chain rA) = Some R"
    and ne: "chain rA \<noteq> chain rB"
    and "buffers s (alice_to_bob L) = Some vla" and "buffers s (bob_to_alice L) = Some vlb"
    and "buffers s (alice_to_bob R) = Some vra" and "buffers s (bob_to_alice R) = Some vrb"
    and s': "s' = welded_heap s iB iA rB rA L R vla vlb vra vrb"
    by (rule furi_pipe_weld_shape [OF inv weld'])
  have sd: "sides s' q = map_option (welded_side iB iA (chain rB) L R q) (sides s q)" for q
    by (simp add: s' welded_heap_def)
  have mem: "iB \<in> set (pipe_sides L)" "iA \<in> set (pipe_sides R)"
    using inv_sideD [OF inv sA] inv_sideD [OF inv sB] L R by auto
  have role': "map_option role (sides s' q) =
      map_option (\<lambda>rec. if q = iA \<or> q = iB then FuriPipeRoleJoint else role rec) (sides s q)" for q
    by (cases "sides s q") (simp_all add: sd welded_side_def)
  have hm: "has_mutex s' q = has_mutex s q" for q
    by (cases "sides s q") (simp_all add: has_mutex_def sd welded_side_def)
  have hmAB: "has_mutex s iA" "has_mutex s iB"
    using sA sB mx by (simp_all add: has_mutex_def)
  define M where "M = \<lparr>alice_to_bob = alice_to_bob R, bob_to_alice = bob_to_alice L,
                    pipe_sides = pipe_sides L @ pipe_sides R\<rparr>"
  have ch: "chains s' = (chains s)(chain rB \<mapsto> M, chain rA := None)"
    by (simp add: s' welded_heap_def M_def)
  have M: "pipe_sides M = pipe_sides L @ pipe_sides R" by (simp add: M_def)
  from args ps have a: "(side_1 = Some iA \<and> side_2 = Some iB) \<or> (side_1 = Some iB \<and> side_2 = Some iA)"
    by auto
  from a sA sB roles hmAB L R ne mem ch M role' hm show ?thesis by blast
qed

lemma ends_frame:
  assumes "\<And>q. q \<in> set (pipe_sides c) \<Longrightarrow>
              map_option role (sides s' q) = map_option role (sides s q)"
  shows "chain_has_alice s' c = chain_has_alice s c" and "chain_has_bob s' c = chain_has_bob s c"
proof -
  show "chain_has_alice s' c = chain_has_alice s c"
  proof (cases "pipe_sides c = []")
    case True
    then show ?thesis by (simp add: chain_has_alice_def)
  next
    case False
    then have "hd (pipe_sides c) \<in> set (pipe_sides c)" by simp
    from assms [OF this] show ?thesis by (simp add: chain_has_alice_def)
  qed
  show "chain_has_bob s' c = chain_has_bob s c"
  proof (cases "pipe_sides c = []")
    case True
    then show ?thesis by (simp add: chain_has_bob_def)
  next
    case False
    then have "last (pipe_sides c) \<in> set (pipe_sides c)" by simp
    from assms [OF this] show ?thesis by (simp add: chain_has_bob_def)
  qed
qed

text \<open>What a call does to the chains and to the roles and mutexes of the sides.\<close>

lemma exec_op_shape:
  assumes inv: "heap_inv s" and ex: "exec_op op s = Inr s'"
  shows "(chains s' = chains s \<and> sides s' = sides s)
    \<or> (\<exists>cap to_alice to_bob. s' = snd (furi_pipe_alloc_ex s cap to_alice to_bob))
    \<or> (\<exists>pipe. op = OpFree pipe \<and> furi_pipe_free s pipe = Inr s')
    \<or> (\<exists>side_1 side_2. furi_pipe_weld s side_1 side_2 = Inr s')"
proof (cases op)
  case (OpAlloc cap trig)
  with ex have "s' = snd (furi_pipe_alloc_ex s FuriPipeWeldingCapEnabled
      \<lparr>capacity = cap, trigger_level = trig\<rparr> \<lparr>capacity = cap, trigger_level = trig\<rparr>)"
    by (simp add: furi_pipe_alloc_def Let_def)
  then show ?thesis by blast
next
  case (OpAllocEx cap to_alice to_bob)
  with ex have "s' = snd (furi_pipe_alloc_ex s cap to_alice to_bob)" by simp
  then show ?thesis by blast
next
  case (OpSend pipe data timeout)
  with ex obtain n where "furi_pipe_send s pipe data timeout = Inr (n, s')"
    by (auto simp add: bindE_eq_Inr)
  from furi_pipe_send_keeps [OF inv this] show ?thesis by simp
next
  case (OpReceive pipe len timeout)
  with ex obtain out where "furi_pipe_receive s pipe len timeout = Inr (out, s')"
    by (auto simp add: bindE_eq_Inr)
  from furi_pipe_receive_keeps [OF inv this] show ?thesis by simp
next
  case (OpFree pipe)
  with ex have "op = OpFree pipe \<and> furi_pipe_free s pipe = Inr s'" by simp
  then show ?thesis by blast
next
  case (OpWeld side_1 side_2)
  with ex have "furi_pipe_weld s side_1 side_2 = Inr s'" by simp
  then show ?thesis by blast
qed

lemma chain_carried_over:
  assumes "chains s a' = Some c'"
    and "\<And>q. q \<in> set (pipe_sides c') \<Longrightarrow>
            map_option role (sides s' q) = map_option role (sides s q)"
  shows "\<not> chain_has_alice s' c' \<Longrightarrow>
      \<exists>a c. chains s a = Some c \<and> \<not> chain_has_alice s c \<and> hd (pipe_sides c) = hd (pipe_sides c')"
    and "\<not> chain_has_bob s' c' \<Longrightarrow>
      \<exists>a c. chains s a = Some c \<and> \<not> chain_has_bob s c \<and> last (pipe_sides c) = last (pipe_sides c')"
  using ends_frame [of c' s' s, OF assms(2)] assms(1) by blast+

lemma has_mutex_sides: "sides s' q = sides s q \<Longrightarrow> has_mutex s' q = has_mutex s q"
  by (simp add: has_mutex_def)

lemma ends_unchanged_step:
  assumes ne: "chains_nonempty s" and al: "mutexes_alike s"
    and ch: "chains s' = chains s" and sd: "sides s' = sides s"
  shows "chains_nonempty s'" and "mutexes_alike s'"
    and "\<And>a' c'. chains s' a' = Some c' \<Longrightarrow> \<not> chain_has_alice s' c' \<Longrightarrow>
      \<exists>a c. chains s a = Some c \<and> \<not> chain_has_alice s c \<and> hd (pipe_sides c) = hd (pipe_sides c')"
    and "\<And>a' c'. chains s' a' = Some c' \<Longrightarrow> \<not> chain_has_bob s' c' \<Longrightarrow>
      \<exists>a c. chains s a = Some c \<and> \<not> chain_has_bob s c \<and> last (pipe_sides c) = last (pipe_sides c')"
proof -
  have hm: "has_mutex s' = has_mutex s" by (simp add: fun_eq_iff has_mutex_def sd)
  show "chains_nonempty s'" using ne by (simp add: chains_nonempty_def ch)
  show "mutexes_alike s'" using al unfolding mutexes_alike_def ch hm .
  show "\<exists>a c. chains s a = Some c \<and> \<not> chain_has_alice s c \<and> hd (pipe_sides c) = hd (pipe_sides c')"
    if "chains s' a' = Some c'" "\<not> chain_has_alice s' c'" for a' c'
    using that chain_carried_over(1) [of s a' c' s'] by (simp add: ch sd)
  show "\<exists>a c. chains s a = Some c \<and> \<not> chain_has_bob s c \<and> last (pipe_sides c) = last (pipe_sides c')"
    if "chains s' a' = Some c'" "\<not> chain_has_bob s' c'" for a' c'
    using that chain_carried_over(2) [of s a' c' s'] by (simp add: ch sd)
qed

lemma ends_alloc_step:
  assumes inv: "heap_inv s" and ne: "chains_nonempty s" and al: "mutexes_alike s"
    and s': "s' = snd (furi_pipe_alloc_ex s cap to_alice to_bob)"
  shows "chains_nonempty s'" and "mutexes_alike s'"
    and "\<And>a' c'. chains s' a' = Some c' \<Longrightarrow> \<not> chain_has_alice s' c' \<Longrightarrow>
      \<exists>a c. chains s a = Some c \<and> \<not> chain_has_alice s c \<and> hd (pipe_sides c) = hd (pipe_sides c')"
    and "\<And>a' c'. chains s' a' = Some c' \<Longrightarrow> \<not> chain_has_bob s' c' \<Longrightarrow>
      \<exists>a c. chains s a = Some c \<and> \<not> chain_has_bob s c \<and> last (pipe_sides c) = last (pipe_sides c')"
proof -
  let ?n = "next_addr s"
  note sh = furi_pipe_alloc_ex_shape [OF s']
  have old_lt: "q < ?n" if "chains s a = Some c" "q \<in> set (pipe_sides c)" for a c q
    using inv_chainD(2) [OF inv that] inv_freshD(1) [OF inv, of q] by (cases "q < ?n") auto
  have old_side: "sides s' q = sides s q" if "chains s a = Some c" "q \<in> set (pipe_sides c)" for a c q
    using old_lt [OF that] sh(5) [of q] by simp
  have cases: "(a = ?n + 2 \<and> pipe_sides c = [?n + 3, ?n + 4]) \<or> chains s a = Some c"
    if "chains s' a = Some c" for a c
    using that by (auto simp add: sh(1) split: if_splits)
  show "chains_nonempty s'"
    unfolding chains_nonempty_def
  proof (intro allI impI)
    fix a c assume "chains s' a = Some c"
    from cases [OF this] ne show "pipe_sides c \<noteq> []" by (auto simp add: chains_nonempty_def)
  qed
  show "mutexes_alike s'"
    unfolding mutexes_alike_def
  proof (intro allI impI ballI)
    fix a c p q assume c: "chains s' a = Some c" and p: "p \<in> set (pipe_sides c)"
      and q: "q \<in> set (pipe_sides c)"
    from cases [OF c] show "has_mutex s' p = has_mutex s' q"
    proof
      assume "a = ?n + 2 \<and> pipe_sides c = [?n + 3, ?n + 4]"
      with p q have "(p = ?n + 3 \<or> p = ?n + 4) \<and> (q = ?n + 3 \<or> q = ?n + 4)" by simp
      then show ?thesis using sh(4) by (elim conjE disjE) simp_all
    next
      assume old: "chains s a = Some c"
      have "has_mutex s' p = has_mutex s p" by (rule has_mutex_sides [OF old_side [OF old p]])
      moreover have "has_mutex s' q = has_mutex s q" by (rule has_mutex_sides [OF old_side [OF old q]])
      moreover from al old p q have "has_mutex s p = has_mutex s q"
        unfolding mutexes_alike_def by blast
      ultimately show ?thesis by simp
    qed
  qed
  show "\<exists>a c. chains s a = Some c \<and> \<not> chain_has_alice s c \<and> hd (pipe_sides c) = hd (pipe_sides c')"
    if c': "chains s' a' = Some c'" and no: "\<not> chain_has_alice s' c'" for a' c'
    using cases [OF c']
  proof
    assume "a' = ?n + 2 \<and> pipe_sides c' = [?n + 3, ?n + 4]"
    with sh(2) no show ?thesis by (simp add: chain_has_alice_def)
  next
    assume old: "chains s a' = Some c'"
    from old_side [OF old] have "\<And>q. q \<in> set (pipe_sides c') \<Longrightarrow>
            map_option role (sides s' q) = map_option role (sides s q)" by simp
    from chain_carried_over(1) [OF old this no] show ?thesis .
  qed
  show "\<exists>a c. chains s a = Some c \<and> \<not> chain_has_bob s c \<and> last (pipe_sides c) = last (pipe_sides c')"
    if c': "chains s' a' = Some c'" and no: "\<not> chain_has_bob s' c'" for a' c'
    using cases [OF c']
  proof
    assume "a' = ?n + 2 \<and> pipe_sides c' = [?n + 3, ?n + 4]"
    with sh(3) no show ?thesis by (simp add: chain_has_bob_def)
  next
    assume old: "chains s a' = Some c'"
    from old_side [OF old] have "\<And>q. q \<in> set (pipe_sides c') \<Longrightarrow>
            map_option role (sides s' q) = map_option role (sides s q)" by simp
    from chain_carried_over(2) [OF old this no] show ?thesis .
  qed
qed


lemma ends_free_step:
  assumes inv: "heap_inv s" and ne: "chains_nonempty s" and al: "mutexes_alike s"
    and free: "furi_pipe_free s pipe = Inr s'"
  shows "chains_nonempty s'" and "mutexes_alike s'"
    and "\<And>a' c'. chains s' a' = Some c' \<Longrightarrow> \<not> chain_has_alice s' c' \<Longrightarrow>
      (\<exists>a c. chains s a = Some c \<and> \<not> chain_has_alice s c \<and> hd (pipe_sides c) = hd (pipe_sides c'))
      \<or> (\<exists>e r. pipe = Some e \<and> sides s e = Some r \<and> role r = FuriPipeRoleAlice \<and> chain r = a')"
    and "\<And>a' c'. chains s' a' = Some c' \<Longrightarrow> \<not> chain_has_bob s' c' \<Longrightarrow>
      (\<exists>a c. chains s a = Some c \<and> \<not> chain_has_bob s c \<and> last (pipe_sides c) = last (pipe_sides c'))
      \<or> (\<exists>e r. pipe = Some e \<and> sides s e = Some r \<and> role r = FuriPipeRoleBob \<and> chain r = a')"
proof -
  from furi_pipe_free_shape [OF inv free] obtain e r c where
    pipe: "pipe = Some e" and side: "sides s e = Some r" and nj: "role r \<noteq> FuriPipeRoleJoint"
    and ch: "chains s (chain r) = Some c" and mem: "e \<in> set (pipe_sides c)"
    and sd: "sides s' = (sides s)(e := None)"
    and alt: "pipe_sides c = [e] \<and> chains s' = (chains s)(chain r := None)
         \<or> (\<exists>p. p \<noteq> e \<and> (pipe_sides c = [e, p] \<or> pipe_sides c = [p, e])
              \<and> chains s' = (chains s)(chain r \<mapsto> c\<lparr>pipe_sides := [p]\<rparr>))"
    by blast
  have other: "chains s a = Some ca \<and> e \<notin> set (pipe_sides ca)"
    if "chains s' a = Some ca" "a \<noteq> chain r" for a ca
  proof -
    from alt that have old: "chains s a = Some ca" by auto
    from inv_apartD(5) [OF inv ch old] that(2) mem old show ?thesis by auto
  qed
  have keep: "sides s' q = sides s q" if "q \<noteq> e" for q
    using that by (simp add: sd)
  have this_chain: "\<exists>p. p \<noteq> e \<and> (pipe_sides c = [e, p] \<or> pipe_sides c = [p, e])
      \<and> ca = c\<lparr>pipe_sides := [p]\<rparr>"
    if "chains s' (chain r) = Some ca" for ca
    using alt that by auto
  have other_roles: "map_option role (sides s' q) = map_option role (sides s q)"
    if "chains s' a = Some ca" "a \<noteq> chain r" "q \<in> set (pipe_sides ca)" for a ca q
  proof -
    from other [OF that(1,2)] that(3) have "q \<noteq> e" by auto
    from keep [OF this] show ?thesis by simp
  qed
  show "chains_nonempty s'"
    unfolding chains_nonempty_def
  proof (intro allI impI)
    fix a ca assume c: "chains s' a = Some ca"
    show "pipe_sides ca \<noteq> []"
    proof (cases "a = chain r")
      case True
      with this_chain c show ?thesis by auto
    next
      case False
      from other [OF c False] ne show ?thesis by (auto simp add: chains_nonempty_def)
    qed
  qed
  show "mutexes_alike s'"
    unfolding mutexes_alike_def
  proof (intro allI impI ballI)
    fix a ca p q assume c: "chains s' a = Some ca" and p: "p \<in> set (pipe_sides ca)"
      and q: "q \<in> set (pipe_sides ca)"
    show "has_mutex s' p = has_mutex s' q"
    proof (cases "a = chain r")
      case True
      with this_chain c p q have "p = q" by auto
      then show ?thesis by simp
    next
      case False
      note o = other [OF c False]
      from o p have "p \<noteq> e" by auto
      from o q have "q \<noteq> e" by auto
      have "has_mutex s' p = has_mutex s p" by (rule has_mutex_sides [OF keep [OF \<open>p \<noteq> e\<close>]])
      moreover have "has_mutex s' q = has_mutex s q" by (rule has_mutex_sides [OF keep [OF \<open>q \<noteq> e\<close>]])
      moreover from al o p q have "has_mutex s p = has_mutex s q"
        unfolding mutexes_alike_def by blast
      ultimately show ?thesis by simp
    qed
  qed
  show "(\<exists>a c. chains s a = Some c \<and> \<not> chain_has_alice s c \<and> hd (pipe_sides c) = hd (pipe_sides c'))
      \<or> (\<exists>e r. pipe = Some e \<and> sides s e = Some r \<and> role r = FuriPipeRoleAlice \<and> chain r = a')"
    if c': "chains s' a' = Some c'" and no: "\<not> chain_has_alice s' c'" for a' c'
  proof (cases "a' = chain r")
    case False
    from other [OF c' False] have old: "chains s a' = Some c'" by simp
    from chain_carried_over(1) [OF old other_roles [OF c' False] no] show ?thesis by simp
  next
    case True
    with this_chain c' obtain p where p: "p \<noteq> e" "pipe_sides c = [e, p] \<or> pipe_sides c = [p, e]"
      "c' = c\<lparr>pipe_sides := [p]\<rparr>" by blast
    show ?thesis
    proof (cases "role r")
      case FuriPipeRoleAlice
      with pipe side True show ?thesis by blast
    next
      case FuriPipeRoleBob
      from inv_roleD(2) [OF inv side ch this] have e_last: "e = last (pipe_sides c)" by simp
      have "pipe_sides c \<noteq> [e, p]"
      proof
        assume "pipe_sides c = [e, p]"
        then have "last (pipe_sides c) = p" by simp
        with e_last p(1) show False by simp
      qed
      with p(2) have xs: "pipe_sides c = [p, e]" by blast
      have "chain_has_alice s c = chain_has_alice s' c'"
        using xs p(3) keep [OF p(1)] by (simp add: chain_has_alice_def)
      with no have "\<not> chain_has_alice s c" by simp
      moreover have "hd (pipe_sides c) = hd (pipe_sides c')" using xs p(3) by simp
      ultimately show ?thesis using ch by blast
    next
      case FuriPipeRoleJoint
      with nj show ?thesis by simp
    qed
  qed
  show "(\<exists>a c. chains s a = Some c \<and> \<not> chain_has_bob s c \<and> last (pipe_sides c) = last (pipe_sides c'))
      \<or> (\<exists>e r. pipe = Some e \<and> sides s e = Some r \<and> role r = FuriPipeRoleBob \<and> chain r = a')"
    if c': "chains s' a' = Some c'" and no: "\<not> chain_has_bob s' c'" for a' c'
  proof (cases "a' = chain r")
    case False
    from other [OF c' False] have old: "chains s a' = Some c'" by simp
    from chain_carried_over(2) [OF old other_roles [OF c' False] no] show ?thesis by simp
  next
    case True
    with this_chain c' obtain p where p: "p \<noteq> e" "pipe_sides c = [e, p] \<or> pipe_sides c = [p, e]"
      "c' = c\<lparr>pipe_sides := [p]\<rparr>" by blast
    show ?thesis
    proof (cases "role r")
      case FuriPipeRoleBob
      with pipe side True show ?thesis by blast
    next
      case FuriPipeRoleAlice
      from inv_roleD(1) [OF inv side ch this] have e_hd: "e = hd (pipe_sides c)" by simp
      have "pipe_sides c \<noteq> [p, e]"
      proof
        assume "pipe_sides c = [p, e]"
        then have "hd (pipe_sides c) = p" by simp
        with e_hd p(1) show False by simp
      qed
      with p(2) have xs: "pipe_sides c = [e, p]" by blast
      have "chain_has_bob s c = chain_has_bob s' c'"
        using xs p(3) keep [OF p(1)] by (simp add: chain_has_bob_def)
      with no have "\<not> chain_has_bob s c" by simp
      moreover have "last (pipe_sides c) = last (pipe_sides c')" using xs p(3) by simp
      ultimately show ?thesis using ch by blast
    next
      case FuriPipeRoleJoint
      with nj show ?thesis by simp
    qed
  qed
qed

lemma ends_weld_step:
  assumes inv: "heap_inv s" and ne: "chains_nonempty s" and al: "mutexes_alike s"
    and weld: "furi_pipe_weld s side_1 side_2 = Inr s'"
  shows "chains_nonempty s'" and "mutexes_alike s'"
    and "\<And>a' c'. chains s' a' = Some c' \<Longrightarrow> \<not> chain_has_alice s' c' \<Longrightarrow>
      \<exists>a c. chains s a = Some c \<and> \<not> chain_has_alice s c \<and> hd (pipe_sides c) = hd (pipe_sides c')"
    and "\<And>a' c'. chains s' a' = Some c' \<Longrightarrow> \<not> chain_has_bob s' c' \<Longrightarrow>
      \<exists>a c. chains s a = Some c \<and> \<not> chain_has_bob s c \<and> last (pipe_sides c) = last (pipe_sides c')"
proof -
  from furi_pipe_weld_ends [OF inv weld] obtain iA iB rA rB L R M where
    sA: "sides s iA = Some rA" and sB: "sides s iB = Some rB"
    and roles: "role rA = FuriPipeRoleAlice" "role rB = FuriPipeRoleBob"
    and hmAB: "has_mutex s iA" "has_mutex s iB"
    and L: "chains s (chain rB) = Some L" and R: "chains s (chain rA) = Some R"
    and lr: "chain rA \<noteq> chain rB"
    and mem: "iB \<in> set (pipe_sides L)" "iA \<in> set (pipe_sides R)"
    and ch: "chains s' = (chains s)(chain rB \<mapsto> M, chain rA := None)"
    and M: "pipe_sides M = pipe_sides L @ pipe_sides R"
    and role': "\<And>q. map_option role (sides s' q) =
           map_option (\<lambda>rec. if q = iA \<or> q = iB then FuriPipeRoleJoint else role rec) (sides s q)"
    and hm: "\<And>q. has_mutex s' q = has_mutex s q"
    by blast
  have lr': "chain rB \<noteq> chain rA" using lr by simp
  note disj = inv_apartD(5) [OF inv L R lr']
  have xs_ne: "pipe_sides L \<noteq> []" and ys_ne: "pipe_sides R \<noteq> []" using mem by auto
  have cases: "(a = chain rB \<and> c = M) \<or> (a \<noteq> chain rB \<and> a \<noteq> chain rA \<and> chains s a = Some c)"
    if "chains s' a = Some c" for a c
    using that lr by (auto simp add: ch split: if_splits)
  have other_not: "q \<noteq> iA \<and> q \<noteq> iB"
    if "chains s a = Some c" "a \<noteq> chain rB" "a \<noteq> chain rA" "q \<in> set (pipe_sides c)" for a c q
    using inv_apartD(5) [OF inv that(1) L that(2)] inv_apartD(5) [OF inv that(1) R that(3)] that(4) mem
    by auto
  have other_roles: "map_option role (sides s' q) = map_option role (sides s q)"
    if "chains s a = Some c" "a \<noteq> chain rB" "a \<noteq> chain rA" "q \<in> set (pipe_sides c)" for a c q
    using other_not [OF that] by (cases "sides s q") (simp_all add: role')
  show "chains_nonempty s'"
    unfolding chains_nonempty_def
  proof (intro allI impI)
    fix a c assume "chains s' a = Some c"
    from cases [OF this] ne M xs_ne show "pipe_sides c \<noteq> []"
      by (auto simp add: chains_nonempty_def)
  qed
  have all_L: "has_mutex s p" if "p \<in> set (pipe_sides L)" for p
    using al L that mem(1) hmAB(2) unfolding mutexes_alike_def by blast
  have all_R: "has_mutex s p" if "p \<in> set (pipe_sides R)" for p
    using al R that mem(2) hmAB(1) unfolding mutexes_alike_def by blast
  show "mutexes_alike s'"
    unfolding mutexes_alike_def
  proof (intro allI impI ballI)
    fix a c p q assume c: "chains s' a = Some c" and p: "p \<in> set (pipe_sides c)"
      and q: "q \<in> set (pipe_sides c)"
    from cases [OF c] show "has_mutex s' p = has_mutex s' q"
    proof
      assume "a = chain rB \<and> c = M"
      with p q M have "has_mutex s p" "has_mutex s q" using all_L all_R by auto
      then show ?thesis by (simp add: hm)
    next
      assume "a \<noteq> chain rB \<and> a \<noteq> chain rA \<and> chains s a = Some c"
      with al p q have "has_mutex s p = has_mutex s q" unfolding mutexes_alike_def by blast
      then show ?thesis by (simp add: hm)
    qed
  qed
  show "\<exists>a c. chains s a = Some c \<and> \<not> chain_has_alice s c \<and> hd (pipe_sides c) = hd (pipe_sides c')"
    if c': "chains s' a' = Some c'" and no: "\<not> chain_has_alice s' c'" for a' c'
    using cases [OF c']
  proof
    assume o: "a' \<noteq> chain rB \<and> a' \<noteq> chain rA \<and> chains s a' = Some c'"
    then have old: "chains s a' = Some c'" by simp
    from o other_roles have "\<And>q. q \<in> set (pipe_sides c') \<Longrightarrow>
            map_option role (sides s' q) = map_option role (sides s q)" by blast
    from chain_carried_over(1) [OF old this no] show ?thesis .
  next
    assume "a' = chain rB \<and> c' = M"
    then have c'M: "c' = M" by simp
    let ?h = "hd (pipe_sides L)"
    have hd_eq: "hd (pipe_sides L) = hd (pipe_sides c')" using xs_ne by (simp add: c'M M)
    have h_in: "?h \<in> set (pipe_sides L)" using xs_ne by simp
    have "\<not> chain_has_alice s L"
    proof
      assume "chain_has_alice s L"
      then have role_h: "map_option role (sides s ?h) = Some FuriPipeRoleAlice"
        by (simp add: chain_has_alice_def)
      have "?h \<noteq> iA" using h_in mem(2) disj by auto
      moreover have "?h \<noteq> iB" using role_h sB roles(2) by auto
      ultimately have "map_option role (sides s' ?h) = Some FuriPipeRoleAlice"
        using role_h by (cases "sides s ?h") (simp_all add: role')
      with no xs_ne show False by (simp add: chain_has_alice_def c'M M)
    qed
    with L hd_eq show ?thesis by blast
  qed
  show "\<exists>a c. chains s a = Some c \<and> \<not> chain_has_bob s c \<and> last (pipe_sides c) = last (pipe_sides c')"
    if c': "chains s' a' = Some c'" and no: "\<not> chain_has_bob s' c'" for a' c'
    using cases [OF c']
  proof
    assume o: "a' \<noteq> chain rB \<and> a' \<noteq> chain rA \<and> chains s a' = Some c'"
    then have old: "chains s a' = Some c'" by simp
    from o other_roles have "\<And>q. q \<in> set (pipe_sides c') \<Longrightarrow>
            map_option role (sides s' q) = map_option role (sides s q)" by blast
    from chain_carried_over(2) [OF old this no] show ?thesis .
  next
    assume "a' = chain rB \<and> c' = M"
    then have c'M: "c' = M" by simp
    let ?t = "last (pipe_sides R)"
    have last_eq: "last (pipe_sides R) = last (pipe_sides c')" using ys_ne by (simp add: c'M M)
    have t_in: "?t \<in> set (pipe_sides R)" using ys_ne by simp
    have "\<not> chain_has_bob s R"
    proof
      assume "chain_has_bob s R"
      then have role_t: "map_option role (sides s ?t) = Some FuriPipeRoleBob"
        by (simp add: chain_has_bob_def)
      have "?t \<noteq> iB" using t_in mem(1) disj by auto
      moreover have "?t \<noteq> iA" using role_t sA roles(1) by auto
      ultimately have "map_option role (sides s' ?t) = Some FuriPipeRoleBob"
        using role_t by (cases "sides s ?t") (simp_all add: role')
      with no ys_ne show False by (simp add: chain_has_bob_def c'M M)
    qed
    with R last_eq show ?thesis by blast
  qed
qed


lemma exec_op_ends:
  assumes inv: "heap_inv s" and ne: "chains_nonempty s" and al: "mutexes_alike s"
    and ex: "exec_op op s = Inr s'"
  shows "chains_nonempty s'" and "mutexes_alike s'"
    and "\<And>a' c'. chains s' a' = Some c' \<Longrightarrow> \<not> chain_has_alice s' c' \<Longrightarrow>
      (\<exists>a c. chains s a = Some c \<and> \<not> chain_has_alice s c \<and> hd (pipe_sides c) = hd (pipe_sides c'))
      \<or> (\<exists>e r. op = OpFree (Some e) \<and> sides s e = Some r \<and> role r = FuriPipeRoleAlice \<and> chain r = a')"
    and "\<And>a' c'. chains s' a' = Some c' \<Longrightarrow> \<not> chain_has_bob s' c' \<Longrightarrow>
      (\<exists>a c. chains s a = Some c \<and> \<not> chain_has_bob s c \<and> last (pipe_sides c) = last (pipe_sides c'))
      \<or> (\<exists>e r. op = OpFree (Some e) \<and> sides s e = Some r \<and> role r = FuriPipeRoleBob \<and> chain r = a')"
proof -
  from exec_op_shape [OF inv ex] consider
      (same) "chains s' = chains s" "sides s' = sides s"
    | (alloc) cap to_alice to_bob where "s' = snd (furi_pipe_alloc_ex s cap to_alice to_bob)"
    | (free) pipe where "op = OpFree pipe" "furi_pipe_free s pipe = Inr s'"
    | (weld) side_1 side_2 where "furi_pipe_weld s side_1 side_2 = Inr s'"
    by blast
  note shape = this
  show "chains_nonempty s'"
    using shape ends_unchanged_step(1) [OF ne al] ends_alloc_step(1) [OF inv ne al] ends_free_step(1) [OF inv ne al]
      ends_weld_step(1) [OF inv ne al]
    by cases blast+
  show "mutexes_alike s'"
    using shape ends_unchanged_step(2) [OF ne al] ends_alloc_step(2) [OF inv ne al] ends_free_step(2) [OF inv ne al]
      ends_weld_step(2) [OF inv ne al]
    by cases blast+
  show "(\<exists>a c. chains s a = Some c \<and> \<not> chain_has_alice s c \<and> hd (pipe_sides c) = hd (pipe_sides c'))
      \<or> (\<exists>e r. op = OpFree (Some e) \<and> sides s e = Some r \<and> role r = FuriPipeRoleAlice \<and> chain r = a')"
    if c': "chains s' a' = Some c'" and no: "\<not> chain_has_alice s' c'" for a' c'
    using shape
  proof cases
    case same
    from ends_unchanged_step(3) [OF ne al same c' no] show ?thesis by simp
  next
    case alloc
    from ends_alloc_step(3) [OF inv ne al alloc c' no] show ?thesis by simp
  next
    case free
    from ends_free_step(3) [OF inv ne al free(2) c' no] free(1) show ?thesis by simp
  next
    case weld
    from ends_weld_step(3) [OF inv ne al weld c' no] show ?thesis by simp
  qed
  show "(\<exists>a c. chains s a = Some c \<and> \<not> chain_has_bob s c \<and> last (pipe_sides c) = last (pipe_sides c'))
      \<or> (\<exists>e r. op = OpFree (Some e) \<and> sides s e = Some r \<and> role r = FuriPipeRoleBob \<and> chain r = a')"
    if c': "chains s' a' = Some c'" and no: "\<not> chain_has_bob s' c'" for a' c'
    using shape
  proof cases
    case same
    from ends_unchanged_step(4) [OF ne al same c' no] show ?thesis by simp
  next
    case alloc
    from ends_alloc_step(4) [OF inv ne al alloc c' no] show ?thesis by simp
  next
    case free
    from ends_free_step(4) [OF inv ne al free(2) c' no] free(1) show ?thesis by simp
  next
    case weld
    from ends_weld_step(4) [OF inv ne al weld c' no] show ?thesis by simp
  qed
qed

lemma run_chain_inv:
  assumes "heap_inv s" and "chains_nonempty s" and "mutexes_alike s" and "run ops s = Inr s'"
  shows "chains_nonempty s' \<and> mutexes_alike s'"
  using assms
proof (induction ops arbitrary: s)
  case Nil
  then show ?case by simp
next
  case (Cons op ops)
  from Cons.prems(4) obtain s1 where s1: "exec_op op s = Inr s1" and rest: "run ops s1 = Inr s'"
    by (auto simp add: bindE_eq_Inr)
  from exec_op_inv [OF Cons.prems(1) s1] exec_op_ends(1,2) [OF Cons.prems(1,2,3) s1] rest
  show ?case by (rule Cons.IH)
qed

lemma reachable_chain_inv:
  assumes "run ops heap_init = Inr s"
  shows "chains_nonempty s" and "mutexes_alike s"
proof -
  have "chains_nonempty heap_init" "mutexes_alike heap_init"
    by (simp_all add: chains_nonempty_def mutexes_alike_def heap_init_def)
  from run_chain_inv [OF heap_inv_init this assms]
  show "chains_nonempty s" and "mutexes_alike s" by simp_all
qed

text \<open>Without a call of \<open>furi_pipe_free\<close> every chain keeps both of its outer sides.\<close>

lemma run_keeps_ends:
  assumes "heap_inv s" and "chains_nonempty s" and "mutexes_alike s"
    and "\<forall>a c. chains s a = Some c \<longrightarrow> chain_has_alice s c \<and> chain_has_bob s c"
    and "\<forall>e. OpFree e \<notin> set ops" and "run ops s = Inr s'"
  shows "\<forall>a c. chains s' a = Some c \<longrightarrow> chain_has_alice s' c \<and> chain_has_bob s' c"
  using assms
proof (induction ops arbitrary: s)
  case Nil
  then show ?case by simp
next
  case (Cons op ops)
  from Cons.prems(6) obtain s1 where s1: "exec_op op s = Inr s1" and rest: "run ops s1 = Inr s'"
    by (auto simp add: bindE_eq_Inr)
  note e = exec_op_ends [OF Cons.prems(1,2,3) s1]
  from Cons.prems(5) have nofree: "\<And>e. op \<noteq> OpFree e" and later: "\<forall>e. OpFree e \<notin> set ops"
    by auto
  have "\<forall>a c. chains s1 a = Some c \<longrightarrow> chain_has_alice s1 c \<and> chain_has_bob s1 c"
  proof (intro allI impI conjI)
    fix a c assume c: "chains s1 a = Some c"
    show "chain_has_alice s1 c"
    proof (rule ccontr)
      assume "\<not> chain_has_alice s1 c"
      from e(3) [OF c this] Cons.prems(4) nofree show False by blast
    qed
    show "chain_has_bob s1 c"
    proof (rule ccontr)
      assume "\<not> chain_has_bob s1 c"
      from e(4) [OF c this] Cons.prems(4) nofree show False by blast
    qed
  qed
  from exec_op_inv [OF Cons.prems(1) s1] e(1,2) this later rest
  show ?case by (rule Cons.IH)
qed

lemma filter_only_hd:
  assumes "distinct xs" and "xs \<noteq> []" and "P (hd xs)" and "\<And>x. x \<in> set xs \<Longrightarrow> P x \<Longrightarrow> x = hd xs"
  shows "filter P xs = [hd xs]"
proof (cases xs)
  case Nil
  with assms(2) show ?thesis by simp
next
  case (Cons x rest)
  have "filter P rest = []"
  proof (rule ccontr)
    assume "filter P rest \<noteq> []"
    then obtain y where y: "y \<in> set rest" "P y"
      by (metis filter_False)
    with assms(4) [of y] Cons have "y = x" by simp
    with y(1) assms(1) Cons show False by simp
  qed
  with assms(3) Cons show ?thesis by simp
qed

lemma filter_only_last:
  assumes "distinct xs" and "xs \<noteq> []" and "P (last xs)" and "\<And>x. x \<in> set xs \<Longrightarrow> P x \<Longrightarrow> x = last xs"
  shows "filter P xs = [last xs]"
proof -
  from assms(2) have xs: "xs = butlast xs @ [last xs]" by simp
  have "filter P (butlast xs) = []"
  proof (rule ccontr)
    assume "filter P (butlast xs) \<noteq> []"
    then obtain y where y: "y \<in> set (butlast xs)" "P y"
      by (metis filter_False)
    from y(1) have "y \<in> set xs" by (rule in_set_butlastD)
    from assms(4) [OF this y(2)] have "y = last xs" .
    with y(1) assms(1) xs show False
      by (metis distinct_butlast not_distinct_conv_prefix append.assoc append_Cons append_Nil in_set_conv_decomp)
  qed
  with assms(3) xs show ?thesis by (metis append_Nil filter.simps(1,2) filter_append)
qed

section \<open>Roles along a chain\<close>

text \<open>
  Claim C2 says that every reachable chain has exactly one side with role Alice, at the
  front of its array, and exactly one with role Bob, at the back. A pipe is allocated and
  Alice's side (3) is freed: the chain's array is \<open>[4]\<close>, and its only side has role Bob.
  The chain has no side with role Alice (\<open>furi_pipe_free\<close> removes the side from the array
  by design: the pipe is then broken).
\<close>

theorem chain_roles_counterexample:
  "bindE (run [OpAlloc 8 1, OpFree (Some 3)] heap_init)
     (\<lambda>s. Inr (map_option pipe_sides (chains s 2),
                map_option (map (\<lambda>p. map_option role (sides s p)) \<circ> pipe_sides) (chains s 2)))
   = Inr (Some [4], Some [Some FuriPipeRoleBob])"
  by (simp add: pipe_defs stream_defs lock_defs)

text \<open>
  Claim C2, amended. In every chain of a reachable heap the array is not empty and its
  sides are distinct; a side with role Alice is the first element and a side with role Bob
  is the last element (so there is at most one of each), and every side that is neither
  first nor last has role Joint. In a heap reached without a call of \<open>furi_pipe_free\<close>
  every chain has exactly one side with role Alice, its first element, and exactly one
  with role Bob, its last element. A call leaves a chain whose first element is not an
  Alice only if a chain with that first element had no Alice before the call, or the call
  is the free of the Alice of that chain; likewise for Bob and the last element. After any
  weld that returns, the two welded sides have role Joint and their receiving buffers are
  cleared; the sending buffer of a welded side is cleared when the side is neither the
  first nor the last element of the merged array; and every other side keeps its role.
\<close>

theorem chain_roles_at_ends:
  assumes "run ops heap_init = Inr s"
  shows "(\<forall>a c. chains s a = Some c \<longrightarrow>
            pipe_sides c \<noteq> [] \<and> distinct (pipe_sides c)
          \<and> (\<forall>p\<in>set (pipe_sides c).
               (map_option role (sides s p) = Some FuriPipeRoleAlice \<longrightarrow> p = hd (pipe_sides c))
             \<and> (map_option role (sides s p) = Some FuriPipeRoleBob \<longrightarrow> p = last (pipe_sides c))
             \<and> (p \<noteq> hd (pipe_sides c) \<and> p \<noteq> last (pipe_sides c) \<longrightarrow>
                  map_option role (sides s p) = Some FuriPipeRoleJoint)))
       \<and> ((\<forall>e. OpFree e \<notin> set ops) \<longrightarrow>
            (\<forall>a c. chains s a = Some c \<longrightarrow>
               filter (\<lambda>p. map_option role (sides s p) = Some FuriPipeRoleAlice) (pipe_sides c)
                 = [hd (pipe_sides c)]
             \<and> filter (\<lambda>p. map_option role (sides s p) = Some FuriPipeRoleBob) (pipe_sides c)
                 = [last (pipe_sides c)]))
       \<and> (\<forall>op s' a' c'. exec_op op s = Inr s' \<and> chains s' a' = Some c' \<longrightarrow>
            (\<not> chain_has_alice s' c' \<longrightarrow>
               (\<exists>a c. chains s a = Some c \<and> \<not> chain_has_alice s c
                      \<and> hd (pipe_sides c) = hd (pipe_sides c'))
             \<or> (\<exists>e r. op = OpFree (Some e) \<and> sides s e = Some r
                      \<and> role r = FuriPipeRoleAlice \<and> chain r = a'))
          \<and> (\<not> chain_has_bob s' c' \<longrightarrow>
               (\<exists>a c. chains s a = Some c \<and> \<not> chain_has_bob s c
                      \<and> last (pipe_sides c) = last (pipe_sides c'))
             \<or> (\<exists>e r. op = OpFree (Some e) \<and> sides s e = Some r
                      \<and> role r = FuriPipeRoleBob \<and> chain r = a')))
       \<and> (\<forall>p1 p2 s'. furi_pipe_weld s (Some p1) (Some p2) = Inr s' \<longrightarrow>
             map_option role (sides s' p1) = Some FuriPipeRoleJoint
           \<and> map_option role (sides s' p2) = Some FuriPipeRoleJoint
           \<and> map_option receiving (sides s' p1) = Some None
           \<and> map_option receiving (sides s' p2) = Some None
           \<and> (\<forall>p r' c'. (p = p1 \<or> p = p2) \<and> sides s' p = Some r' \<and> chains s' (chain r') = Some c'
                 \<and> p \<noteq> hd (pipe_sides c') \<and> p \<noteq> last (pipe_sides c') \<longrightarrow> sending r' = None)
           \<and> (\<forall>q. q \<noteq> p1 \<and> q \<noteq> p2 \<longrightarrow>
                 map_option role (sides s' q) = map_option role (sides s q)))"
    (is "?ends \<and> ?exact \<and> ?step \<and> ?welds")
proof -
  note inv = reachable_inv [OF assms]
  note cinv = reachable_chain_inv [OF assms]
  have at_ends: "(map_option role (sides s p) = Some FuriPipeRoleAlice \<longrightarrow> p = hd (pipe_sides c))
             \<and> (map_option role (sides s p) = Some FuriPipeRoleBob \<longrightarrow> p = last (pipe_sides c))
             \<and> (p \<noteq> hd (pipe_sides c) \<and> p \<noteq> last (pipe_sides c) \<longrightarrow>
                  map_option role (sides s p) = Some FuriPipeRoleJoint)"
    if ac: "chains s a = Some c" and p: "p \<in> set (pipe_sides c)" for a c p
  proof -
    from inv_chainD(2) [OF inv ac p] obtain r where r: "sides s p = Some r" "chain r = a" by blast
    with ac have "chains s (chain r) = Some c" by simp
    from inv_roleD [OF inv r(1) this] r(1) show ?thesis
      by (cases "role r") auto
  qed
  have ends: ?ends
  proof (intro allI impI conjI ballI)
    fix a c assume ac: "chains s a = Some c"
    from cinv(1) ac show "pipe_sides c \<noteq> []" by (auto simp add: chains_nonempty_def)
    show "distinct (pipe_sides c)" by (rule inv_chainD(1) [OF inv ac])
  next
    fix a c p assume ac: "chains s a = Some c" and p: "p \<in> set (pipe_sides c)"
    assume "map_option role (sides s p) = Some FuriPipeRoleAlice"
    with at_ends [OF ac p] show "p = hd (pipe_sides c)" by simp
  next
    fix a c p assume ac: "chains s a = Some c" and p: "p \<in> set (pipe_sides c)"
    assume "map_option role (sides s p) = Some FuriPipeRoleBob"
    with at_ends [OF ac p] show "p = last (pipe_sides c)" by simp
  next
    fix a c p assume ac: "chains s a = Some c" and p: "p \<in> set (pipe_sides c)"
    assume "p \<noteq> hd (pipe_sides c) \<and> p \<noteq> last (pipe_sides c)"
    with at_ends [OF ac p] show "map_option role (sides s p) = Some FuriPipeRoleJoint" by simp
  qed
  have exact: ?exact
  proof (intro allI impI conjI)
    fix a c assume nofree: "\<forall>e. OpFree e \<notin> set ops" and ac: "chains s a = Some c"
    have "\<forall>a c. chains heap_init a = Some c \<longrightarrow> chain_has_alice heap_init c \<and> chain_has_bob heap_init c"
      "chains_nonempty heap_init" "mutexes_alike heap_init"
      by (simp_all add: heap_init_def chains_nonempty_def mutexes_alike_def)
    from run_keeps_ends [OF heap_inv_init this(2,3,1) nofree assms] ac
    have both: "chain_has_alice s c" "chain_has_bob s c" by simp_all
    from both(1) show "filter (\<lambda>p. map_option role (sides s p) = Some FuriPipeRoleAlice) (pipe_sides c)
                 = [hd (pipe_sides c)]"
      using inv_chainD(1) [OF inv ac] at_ends [OF ac]
      by (intro filter_only_hd) (simp_all add: chain_has_alice_def)
    from both(2) show "filter (\<lambda>p. map_option role (sides s p) = Some FuriPipeRoleBob) (pipe_sides c)
                 = [last (pipe_sides c)]"
      using inv_chainD(1) [OF inv ac] at_ends [OF ac]
      by (intro filter_only_last) (simp_all add: chain_has_bob_def)
  qed
  have step: ?step
  proof (intro allI impI conjI)
    fix op s' a' c'
    assume h: "exec_op op s = Inr s' \<and> chains s' a' = Some c'" and no: "\<not> chain_has_alice s' c'"
    from h have ex: "exec_op op s = Inr s'" and c': "chains s' a' = Some c'" by simp_all
    from exec_op_ends(3) [OF inv cinv ex c' no]
    show "(\<exists>a c. chains s a = Some c \<and> \<not> chain_has_alice s c
                      \<and> hd (pipe_sides c) = hd (pipe_sides c'))
             \<or> (\<exists>e r. op = OpFree (Some e) \<and> sides s e = Some r
                      \<and> role r = FuriPipeRoleAlice \<and> chain r = a')" .
  next
    fix op s' a' c'
    assume h: "exec_op op s = Inr s' \<and> chains s' a' = Some c'" and no: "\<not> chain_has_bob s' c'"
    from h have ex: "exec_op op s = Inr s'" and c': "chains s' a' = Some c'" by simp_all
    from exec_op_ends(4) [OF inv cinv ex c' no]
    show "(\<exists>a c. chains s a = Some c \<and> \<not> chain_has_bob s c
                      \<and> last (pipe_sides c) = last (pipe_sides c'))
             \<or> (\<exists>e r. op = OpFree (Some e) \<and> sides s e = Some r
                      \<and> role r = FuriPipeRoleBob \<and> chain r = a')" .
  qed
  have welds: ?welds
  proof (intro allI impI conjI)
    fix p1 p2 s' assume weld: "furi_pipe_weld s (Some p1) (Some p2) = Inr s'"
    obtain iA iB rA rB L R vla vlb vra vrb where
      ps: "(p1 = iA \<and> p2 = iB) \<or> (p1 = iB \<and> p2 = iA)"
      and sA: "sides s iA = Some rA" and sB: "sides s iB = Some rB"
      and "role rA = FuriPipeRoleAlice" and "role rB = FuriPipeRoleBob"
      and "mutex rA \<noteq> None" and "mutex rB \<noteq> None"
      and L: "chains s (chain rB) = Some L" and R: "chains s (chain rA) = Some R"
      and ne: "chain rA \<noteq> chain rB"
      and "buffers s (alice_to_bob L) = Some vla" and "buffers s (bob_to_alice L) = Some vlb"
      and "buffers s (alice_to_bob R) = Some vra" and "buffers s (bob_to_alice R) = Some vrb"
      and s': "s' = welded_heap s iB iA rB rA L R vla vlb vra vrb"
      by (rule furi_pipe_weld_shape [OF inv weld])
    have sd: "sides s' q = map_option (welded_side iB iA (chain rB) L R q) (sides s q)" for q
      by (simp add: s' welded_heap_def)
    have memB: "iB \<in> set (pipe_sides L)" and memA: "iA \<in> set (pipe_sides R)"
      using inv_sideD [OF inv sA] inv_sideD [OF inv sB] L R by auto
    have role': "map_option role (sides s' q) =
        map_option (\<lambda>rec. if q = iA \<or> q = iB then FuriPipeRoleJoint else role rec) (sides s q)" for q
      by (cases "sides s q") (simp_all add: sd welded_side_def)
    have recv': "map_option receiving (sides s' q) =
        map_option (\<lambda>rec. if q = iA \<or> q = iB then None else receiving rec) (sides s q)" for q
      by (cases "sides s q") (simp_all add: sd welded_side_def)
    show "map_option role (sides s' p1) = Some FuriPipeRoleJoint"
      using ps sA sB by (auto simp add: role')
    show "map_option role (sides s' p2) = Some FuriPipeRoleJoint"
      using ps sA sB by (auto simp add: role')
    show "map_option receiving (sides s' p1) = Some None"
      using ps sA sB by (auto simp add: recv')
    show "map_option receiving (sides s' p2) = Some None"
      using ps sA sB by (auto simp add: recv')
    show "map_option role (sides s' q) = map_option role (sides s q)" if "q \<noteq> p1 \<and> q \<noteq> p2" for q
      using ps that by (cases "sides s q") (auto simp add: role')
    show "sending r' = None"
      if h: "(p = p1 \<or> p = p2) \<and> sides s' p = Some r' \<and> chains s' (chain r') = Some c'
                   \<and> p \<noteq> hd (pipe_sides c') \<and> p \<noteq> last (pipe_sides c')" for p r' c'
    proof -
      from h ps have p: "p = iA \<or> p = iB" by auto
      from p sA sB h obtain rec where rec: "sides s p = Some rec" "r' = welded_side iB iA (chain rB) L R p rec"
        by (auto simp add: sd)
      have in_ys: "p \<in> set (pipe_sides R) \<longleftrightarrow> p = iA"
        using p memA memB inv_apartD(5) [OF inv L R] ne by auto
      have chain_rec: "chain rec = (if p = iA then chain rA else chain rB)"
        using p rec sA sB by auto
      have "chain r' = chain rB"
        using in_ys chain_rec by (auto simp add: rec(2) welded_side_def)
      with h ne have c': "pipe_sides c' = pipe_sides L @ pipe_sides R"
        by (auto simp add: s' welded_heap_def)
      from memA memB have "pipe_sides L \<noteq> []" "pipe_sides R \<noteq> []" by auto
      with h c' have "p \<noteq> hd (pipe_sides L)" "p \<noteq> last (pipe_sides R)" by auto
      with p show ?thesis by (auto simp add: rec(2) welded_side_def)
    qed
  qed
  show ?thesis by (rule conjI [OF ends conjI [OF exact conjI [OF step welds]]])
qed

theorem chain_roles_at_ends_witness:
  "\<exists>s s'. run [OpAlloc 8 1, OpAlloc 8 1] heap_init = Inr s
     \<and> map_option (\<lambda>c. filter (\<lambda>p. map_option role (sides s p) = Some FuriPipeRoleAlice)
                          (pipe_sides c)) (chains s 2) = Some [3]
     \<and> map_option (\<lambda>c. filter (\<lambda>p. map_option role (sides s p) = Some FuriPipeRoleBob)
                          (pipe_sides c)) (chains s 7) = Some [9]
     \<and> furi_pipe_weld s (Some 4) (Some 8) = Inr s'
     \<and> map_option pipe_sides (chains s' 2) = Some [3, 4, 8, 9]
     \<and> map (\<lambda>p. map_option role (sides s' p)) [3, 4, 8, 9] =
         [Some FuriPipeRoleAlice, Some FuriPipeRoleJoint, Some FuriPipeRoleJoint, Some FuriPipeRoleBob]
     \<and> map_option receiving (sides s' 4) = Some None \<and> map_option receiving (sides s' 8) = Some None
     \<and> map_option sending (sides s' 4) = Some None \<and> map_option sending (sides s' 8) = Some None"
proof -
  have "\<exists>s. run [OpAlloc 8 1, OpAlloc 8 1] heap_init = Inr s
      \<and> map_option role (sides s 3) = Some FuriPipeRoleAlice
      \<and> map_option role (sides s 9) = Some FuriPipeRoleBob
      \<and> map_option pipe_sides (chains s 2) = Some [3, 4]
      \<and> map_option pipe_sides (chains s 7) = Some [8, 9]
      \<and> (\<exists>s'. furi_pipe_weld s (Some 4) (Some 8) = Inr s'
            \<and> map_option pipe_sides (chains s' 2) = Some [3, 4, 8, 9]
            \<and> map_option chain (sides s' 4) = Some 2 \<and> map_option chain (sides s' 8) = Some 2
            \<and> sides s' 4 \<noteq> None \<and> sides s' 8 \<noteq> None)"
    by (simp add: pipe_defs stream_defs lock_defs weld_defs)
  then obtain s s' where run: "run [OpAlloc 8 1, OpAlloc 8 1] heap_init = Inr s"
    and r3: "map_option role (sides s 3) = Some FuriPipeRoleAlice"
    and r9: "map_option role (sides s 9) = Some FuriPipeRoleBob"
    and ch2: "map_option pipe_sides (chains s 2) = Some [3, 4]"
    and ch7: "map_option pipe_sides (chains s 7) = Some [8, 9]"
    and weld: "furi_pipe_weld s (Some 4) (Some 8) = Inr s'"
    and ch: "map_option pipe_sides (chains s' 2) = Some [3, 4, 8, 9]"
    and c48: "map_option chain (sides s' 4) = Some 2" "map_option chain (sides s' 8) = Some 2"
      "sides s' 4 \<noteq> None" "sides s' 8 \<noteq> None"
    by blast
  note at_s = chain_roles_at_ends [OF run]
  note exact = at_s [THEN conjunct2, THEN conjunct1]
  note welds = at_s [THEN conjunct2, THEN conjunct2, THEN conjunct2]
  have "\<forall>e. OpFree e \<notin> set [OpAlloc 8 1, OpAlloc 8 1]" by simp
  with exact have ex: "\<And>a c. chains s a = Some c \<Longrightarrow>
       filter (\<lambda>p. map_option role (sides s p) = Some FuriPipeRoleAlice) (pipe_sides c)
                 = [hd (pipe_sides c)]
     \<and> filter (\<lambda>p. map_option role (sides s p) = Some FuriPipeRoleBob) (pipe_sides c)
                 = [last (pipe_sides c)]"
    by blast
  from ch2 obtain c2 where c2: "chains s 2 = Some c2" "pipe_sides c2 = [3, 4]" by auto
  from ch7 obtain c7 where c7: "chains s 7 = Some c7" "pipe_sides c7 = [8, 9]" by auto
  from ex [OF c2(1)] c2
  have one_alice: "map_option (\<lambda>c. filter (\<lambda>p. map_option role (sides s p) = Some FuriPipeRoleAlice)
                          (pipe_sides c)) (chains s 2) = Some [3]"
    by simp
  from ex [OF c7(1)] c7
  have one_bob: "map_option (\<lambda>c. filter (\<lambda>p. map_option role (sides s p) = Some FuriPipeRoleBob)
                          (pipe_sides c)) (chains s 7) = Some [9]"
    by simp
  from welds weld have j: "map_option role (sides s' 4) = Some FuriPipeRoleJoint"
    "map_option role (sides s' 8) = Some FuriPipeRoleJoint"
    "map_option receiving (sides s' 4) = Some None" "map_option receiving (sides s' 8) = Some None"
    by blast+
  from welds weld have keep: "\<And>q. q \<noteq> 4 \<and> q \<noteq> 8 \<Longrightarrow> map_option role (sides s' q) = map_option role (sides s q)"
    by blast
  from welds weld have clr: "\<And>p r' c'. (p = 4 \<or> p = 8) \<and> sides s' p = Some r' \<and> chains s' (chain r') = Some c'
                 \<and> p \<noteq> hd (pipe_sides c') \<and> p \<noteq> last (pipe_sides c') \<Longrightarrow> sending r' = None"
    by blast
  from ch obtain c' where c': "chains s' 2 = Some c'" "pipe_sides c' = [3, 4, 8, 9]" by auto
  from c48 obtain r4 r8 where r4: "sides s' 4 = Some r4" "chain r4 = 2"
    and r8: "sides s' 8 = Some r8" "chain r8 = 2" by auto
  from clr [of 4 r4 c'] r4 c' have s4: "sending r4 = None" by simp
  from clr [of 8 r8 c'] r8 c' have s8: "sending r8 = None" by simp
  from keep [of 3] keep [of 9] r3 r9 j s4 s8 r4 r8 have
    "map (\<lambda>p. map_option role (sides s' p)) [3, 4, 8, 9] =
         [Some FuriPipeRoleAlice, Some FuriPipeRoleJoint, Some FuriPipeRoleJoint, Some FuriPipeRoleBob]
     \<and> map_option receiving (sides s' 4) = Some None \<and> map_option receiving (sides s' 8) = Some None
     \<and> map_option sending (sides s' 4) = Some None \<and> map_option sending (sides s' 8) = Some None"
    by auto
  with run one_alice one_bob weld ch have
    "run [OpAlloc 8 1, OpAlloc 8 1] heap_init = Inr s
     \<and> map_option (\<lambda>c. filter (\<lambda>p. map_option role (sides s p) = Some FuriPipeRoleAlice)
                          (pipe_sides c)) (chains s 2) = Some [3]
     \<and> map_option (\<lambda>c. filter (\<lambda>p. map_option role (sides s p) = Some FuriPipeRoleBob)
                          (pipe_sides c)) (chains s 7) = Some [9]
     \<and> furi_pipe_weld s (Some 4) (Some 8) = Inr s'
     \<and> map_option pipe_sides (chains s' 2) = Some [3, 4, 8, 9]
     \<and> map (\<lambda>p. map_option role (sides s' p)) [3, 4, 8, 9] =
         [Some FuriPipeRoleAlice, Some FuriPipeRoleJoint, Some FuriPipeRoleJoint, Some FuriPipeRoleBob]
     \<and> map_option receiving (sides s' 4) = Some None \<and> map_option receiving (sides s' 8) = Some None
     \<and> map_option sending (sides s' 4) = Some None \<and> map_option sending (sides s' 8) = Some None"
    by simp
  then show ?thesis by - (rule exI [of _ s], rule exI [of _ s'], assumption)
qed

section \<open>Freeing a side\<close>

text \<open>
  Claim C3 says that freeing any side that is not a joint succeeds. Two pipes are welded
  (P's Bob to Q's Alice): P's Alice (3) still has role Alice, and its chain has four sides.
  Freeing it is a fatal failure: \<open>furi_check(sides <= 2)\<close> fires (the source marks chains
  as not yet supported there).
\<close>

theorem furi_pipe_free_welded_chain_crashes:
  "bindE (run [OpAlloc 8 1, OpAlloc 8 1, OpWeld (Some 4) (Some 8)] heap_init)
     (\<lambda>s. Inr (map_option role (sides s 3), map_option pipe_sides (chains s 2)))
     = Inr (Some FuriPipeRoleAlice, Some [3, 4, 8, 9])
   \<and> run [OpAlloc 8 1, OpAlloc 8 1, OpWeld (Some 4) (Some 8), OpFree (Some 3)] heap_init = Inl Crash"
  by (simp add: pipe_defs stream_defs lock_defs weld_defs)

text \<open>
  Claim C3, amended. A live side \<open>e\<close> of a reachable heap is in the array of its chain.
  Freeing it is a fatal failure when its role is Joint, and when its chain has more than
  two sides. Otherwise it succeeds: when \<open>e\<close> is the only side of the chain, both stream
  buffers, the chain and \<open>e\<close> are freed; when the chain has two sides, \<open>e\<close> is removed
  from the array (which is then one shorter) and freed, and the other side, the chain and
  the buffers stay as they are.
\<close>

theorem furi_pipe_free_of_reachable_side:
  assumes "run ops heap_init = Inr s" and "sides s e = Some r"
  shows "\<exists>c. chains s (chain r) = Some c \<and> e \<in> set (pipe_sides c)
     \<and> length (remove1 e (pipe_sides c)) = length (pipe_sides c) - 1
     \<and> furi_pipe_free s (Some e) =
        (if role r = FuriPipeRoleJoint then Inl Crash
         else if 2 < length (pipe_sides c) then Inl Crash
         else if length (pipe_sides c) = 1
         then Inr (s\<lparr>buffers := (buffers s)(alice_to_bob c := None, bob_to_alice c := None),
                    chains := (chains s)(chain r := None),
                    sides := (sides s)(e := None)\<rparr>)
         else Inr (s\<lparr>chains := (chains s)(chain r \<mapsto> c\<lparr>pipe_sides := remove1 e (pipe_sides c)\<rparr>),
                    sides := (sides s)(e := None)\<rparr>))"
proof -
  note inv = reachable_inv [OF assms(1)]
  from inv_sideD [OF inv assms(2)] obtain c where c: "chains s (chain r) = Some c" "e \<in> set (pipe_sides c)"
    by blast
  from furi_pipe_free_result [OF inv assms(2) c(1)] c show ?thesis
    by (simp add: length_remove1)
qed

theorem furi_pipe_free_of_reachable_side_witness:
  "\<exists>s r. run [OpAlloc 8 1] heap_init = Inr s \<and> sides s 3 = Some r \<and> role r = FuriPipeRoleAlice
     \<and> map_sum id (\<lambda>s'. (map_option pipe_sides (chains s' 2), sides s' 3 = None, sides s' 4 \<noteq> None,
                          buffers s' 0 \<noteq> None, buffers s' 1 \<noteq> None))
         (furi_pipe_free s (Some 3)) = Inr (Some [4], True, True, True, True)"
proof -
  have "\<exists>s r. run [OpAlloc 8 1] heap_init = Inr s \<and> sides s 3 = Some r \<and> role r = FuriPipeRoleAlice
      \<and> chain r = 2 \<and> map_option pipe_sides (chains s 2) = Some [3, 4]
      \<and> sides s 4 \<noteq> None \<and> buffers s 0 \<noteq> None \<and> buffers s 1 \<noteq> None"
    by (simp add: pipe_defs stream_defs lock_defs)
  then obtain s r where run: "run [OpAlloc 8 1] heap_init = Inr s" and side: "sides s 3 = Some r"
    and r: "role r = FuriPipeRoleAlice" "chain r = 2"
    and ch: "map_option pipe_sides (chains s 2) = Some [3, 4]"
    and rest: "sides s 4 \<noteq> None" "buffers s 0 \<noteq> None" "buffers s 1 \<noteq> None"
    by blast
  from furi_pipe_free_of_reachable_side [OF run side] r ch
  obtain c where c: "chains s 2 = Some c" "pipe_sides c = [3, 4]"
    and free: "furi_pipe_free s (Some 3) =
       Inr (s\<lparr>chains := (chains s)(2 \<mapsto> c\<lparr>pipe_sides := remove1 3 (pipe_sides c)\<rparr>),
              sides := (sides s)(3 := None)\<rparr>)"
    by auto
  from run side r free c rest show ?thesis
    by auto
qed

section \<open>The order of the locks in a weld\<close>

lemma map_sum_bindE: "map_sum id g (bindE m f) = bindE m (\<lambda>x. map_sum id g (f x))"
  by (cases m) simp_all

lemma bindE_map_sum_Pair: "bindE (map_sum id (Pair l) m) (\<lambda>(l', x). g l' x) = bindE m (g l)"
  by (cases m) simp_all

lemma bindE_Inr_Pair: "bindE m (\<lambda>x. Inr (l, x)) = map_sum id (Pair l) m"
  by (cases m) simp_all

lemma furi_pipe_side_lock_keeps:
  assumes "furi_pipe_side_lock s p = Inr s'"
  shows "sides s' = sides s" and "chains s' = chains s"
  using assms
  by (auto simp add: lock_defs bindE_eq_Inr split: option.splits if_splits)

lemma lock_sides_except_keeps:
  assumes "lock_sides_except skip ps s = Inr s'"
  shows "sides s' = sides s \<and> chains s' = chains s"
  using assms
proof (induction ps arbitrary: s)
  case Nil
  then show ?case by simp
next
  case (Cons p ps)
  show ?case
  proof (cases "p = skip")
    case True
    with Cons show ?thesis by simp
  next
    case False
    with Cons.prems obtain s1 where s1: "furi_pipe_side_lock s p = Inr s1"
      and rest: "lock_sides_except skip ps s1 = Inr s'"
      by (auto simp add: bindE_eq_Inr)
    from Cons.IH [OF rest] furi_pipe_side_lock_keeps [OF s1] show ?thesis by simp
  qed
qed

lemma furi_pipe_side_lock_logged_eq:
  "furi_pipe_side_lock_logged log s p =
     map_sum id (Pair (log @ (if has_mutex s p then [p] else []))) (furi_pipe_side_lock s p)"
  by (simp add: furi_pipe_side_lock_logged_def furi_pipe_side_lock_def get_side_def has_mutex_def
      furi_mutex_acquire_def split: option.splits)

lemma lock_sides_except_logged_eq:
  "lock_sides_except_logged skip ps log s =
     map_sum id (Pair (log @ filter (\<lambda>q. q \<noteq> skip \<and> has_mutex s q) ps))
       (lock_sides_except skip ps s)"
proof (induction ps arbitrary: log s)
  case Nil
  then show ?case by simp
next
  case (Cons p ps)
  show ?case
  proof (cases "p = skip")
    case True
    with Cons.IH [of log s] show ?thesis by simp
  next
    case False
    show ?thesis
    proof (cases "furi_pipe_side_lock s p")
      case (Inl e)
      with False show ?thesis by (simp add: furi_pipe_side_lock_logged_eq)
    next
      case (Inr s1)
      from furi_pipe_side_lock_keeps(1) [OF Inr] have "has_mutex s1 = has_mutex s"
        by (simp add: fun_eq_iff has_mutex_def)
      with False Inr Cons.IH [of "log @ (if has_mutex s p then [p] else [])" s1]
      show ?thesis by (simp add: furi_pipe_side_lock_logged_eq)
    qed
  qed
qed

lemma weld_chains_logged_eq:
  assumes L: "chains s l = Some L" and R: "chains s r = Some R"
  shows "weld_chains_logged log s iB iA l r =
     map_sum id (Pair (log @ filter (\<lambda>q. q \<noteq> iB \<and> has_mutex s q) (pipe_sides L)
                           @ filter (\<lambda>q. q \<noteq> iA \<and> has_mutex s q) (pipe_sides R)))
       (weld_chains s iB iA l r)"
proof (cases "lock_sides_except iB (pipe_sides L) s")
  case (Inl e)
  with L show ?thesis
    by (simp add: weld_chains_logged_def weld_chains_def get_chain_def lock_sides_except_logged_eq)
next
  case s1: (Inr s1)
  from lock_sides_except_keeps [OF s1] have k1: "sides s1 = sides s" "chains s1 = chains s" by simp_all
  then have hm1: "has_mutex s1 = has_mutex s" by (simp add: fun_eq_iff has_mutex_def)
  show ?thesis
  proof (cases "lock_sides_except iA (pipe_sides R) s1")
    case (Inl e)
    with L R s1 k1 show ?thesis
      by (simp add: weld_chains_logged_def weld_chains_def get_chain_def lock_sides_except_logged_eq)
  next
    case s2: (Inr s2)
    with L R s1 k1 hm1 show ?thesis
      by (simp add: weld_chains_logged_def weld_chains_def get_chain_def lock_sides_except_logged_eq
          map_sum_bindE bindE_Inr_Pair)
  qed
qed


lemma weld_chains_logged_erase:
  "map_sum id snd (weld_chains_logged log s iB iA l r) = weld_chains s iB iA l r"
proof (cases "chains s l")
  case None
  then show ?thesis by (simp add: weld_chains_logged_def weld_chains_def get_chain_def)
next
  case L: (Some L)
  show ?thesis
  proof (cases "lock_sides_except iB (pipe_sides L) s")
    case (Inl e)
    with L show ?thesis
      by (simp add: weld_chains_logged_def weld_chains_def get_chain_def lock_sides_except_logged_eq)
  next
    case s1: (Inr s1)
    from lock_sides_except_keeps [OF s1] have k1: "chains s1 = chains s" by simp
    show ?thesis
    proof (cases "chains s r")
      case None
      with L s1 k1 show ?thesis
        by (simp add: weld_chains_logged_def weld_chains_def get_chain_def lock_sides_except_logged_eq)
    next
      case (Some R)
      from weld_chains_logged_eq [OF L Some] show ?thesis
        by (simp add: sum.map_comp o_def sum.map_ident)
    qed
  qed
qed

lemma furi_pipe_weld_logged_erase:
  "map_sum id snd (furi_pipe_weld_logged s side_1 side_2) = furi_pipe_weld s side_1 side_2"
proof (cases "\<exists>p1 p2 r1 r2 u1 u2 t1 t2. side_1 = Some p1 \<and> side_2 = Some p2
    \<and> sides s p1 = Some r1 \<and> sides s p2 = Some r2 \<and> mutex r1 = Some u1 \<and> mutex r2 = Some u2
    \<and> furi_pipe_side_lock s p1 = Inr t1 \<and> furi_pipe_side_lock t1 p2 = Inr t2")
  case True
  then obtain p1 p2 r1 r2 u1 u2 t1 t2 where "side_1 = Some p1" "side_2 = Some p2"
    "sides s p1 = Some r1" "sides s p2 = Some r2" "mutex r1 = Some u1" "mutex r2 = Some u2"
    "furi_pipe_side_lock s p1 = Inr t1" "furi_pipe_side_lock t1 p2 = Inr t2"
    by blast
  then show ?thesis
    by (simp add: furi_pipe_weld_logged_def furi_pipe_weld_def furi_pipe_side_lock_logged_eq
        get_side_def weld_chains_logged_erase Let_def)
next
  case False
  show ?thesis
  proof (cases side_1)
    case None
    then show ?thesis by (simp add: furi_pipe_weld_logged_def furi_pipe_weld_def)
  next
    case p1: (Some p1)
    show ?thesis
    proof (cases side_2)
      case None
      with p1 show ?thesis by (simp add: furi_pipe_weld_logged_def furi_pipe_weld_def)
    next
      case p2: (Some p2)
      show ?thesis
      proof (cases "sides s p1")
        case None
        with p1 p2 show ?thesis
          by (simp add: furi_pipe_weld_logged_def furi_pipe_weld_def get_side_def)
      next
        case r1: (Some r1)
        show ?thesis
        proof (cases "mutex r1")
          case None
          with p1 p2 r1 show ?thesis
            by (simp add: furi_pipe_weld_logged_def furi_pipe_weld_def get_side_def)
        next
          case u1: (Some u1)
          show ?thesis
          proof (cases "sides s p2")
            case None
            with p1 p2 r1 u1 show ?thesis
              by (simp add: furi_pipe_weld_logged_def furi_pipe_weld_def get_side_def)
          next
            case r2: (Some r2)
            show ?thesis
            proof (cases "mutex r2")
              case None
              with p1 p2 r1 u1 r2 show ?thesis
                by (simp add: furi_pipe_weld_logged_def furi_pipe_weld_def get_side_def)
            next
              case u2: (Some u2)
              show ?thesis
              proof (cases "furi_pipe_side_lock s p1")
                case (Inl e)
                with p1 p2 r1 u1 r2 u2 show ?thesis
                  by (simp add: furi_pipe_weld_logged_def furi_pipe_weld_def get_side_def
                      furi_pipe_side_lock_logged_eq)
              next
                case t1: (Inr t1)
                show ?thesis
                proof (cases "furi_pipe_side_lock t1 p2")
                  case (Inl e)
                  with p1 p2 r1 u1 r2 u2 t1 show ?thesis
                    by (simp add: furi_pipe_weld_logged_def furi_pipe_weld_def get_side_def
                        furi_pipe_side_lock_logged_eq)
                next
                  case (Inr t2)
                  with False p1 p2 r1 u1 r2 u2 t1 show ?thesis by blast
                qed
              qed
            qed
          qed
        qed
      qed
    qed
  qed
qed





end
